theory Spec2Isabelle
  imports Main
begin

section \<open>Data model\<close>

text \<open>
  The exceptions that \<^verbatim>\<open>caffe2/core/transform.cc\<close> can raise, as values:
  \<^item> \<open>OutOfRange\<close>: \<^verbatim>\<open>std::out_of_range\<close> of a bounds-checked \<^verbatim>\<open>at\<close>;
  \<^item> \<open>EnforceNotMet\<close>: a failed \<^verbatim>\<open>CAFFE_ENFORCE\<close>;
  \<^item> \<open>NotImplemented\<close>: \<^verbatim>\<open>CAFFE_NOT_IMPLEMENTED\<close>;
  \<^item> \<open>ReplaceFailed\<close>: \<^verbatim>\<open>CAFFE_THROW("Replace failed!")\<close>.

  \<open>OutOfFuel\<close> is no exception of the program: it is the value of the bounded recursion
  \<open>PatternMatchHelper_fuel\<close> below when its bound is used up. It never comes out of
  \<open>PatternMatchHelper\<close> or \<open>PatternMatch\<close> (\<open>PatternMatchHelper_no_OutOfFuel\<close>,
  \<open>PatternMatch_no_OutOfFuel\<close>).

  Node indices are \<^verbatim>\<open>int\<close>s in the program and integers here; sizes are natural numbers.
  The two readings agree on graphs of fewer than \<open>2\<^sup>3\<^sup>1\<close> nodes: the loops count
  upwards from an index that is not negative and stop at the size.
\<close>

datatype error = OutOfRange | EnforceNotMet | NotImplemented | ReplaceFailed | OutOfFuel

text \<open>
  Modelled from the spec: the enumeration \<^verbatim>\<open>PatternMatchType\<close> is declared in
  \<^verbatim>\<open>transform.h\<close>, which is not among the sources. The three names are the ones
  \<^verbatim>\<open>transform.cc\<close> compares with; \<open>UNKNOWN_TYPE\<close> stands for every other value, which
  takes the final \<^verbatim>\<open>else\<close> branch of \<^verbatim>\<open>PatternMatchHelper\<close>.
\<close>

datatype PatternMatchType =
  CONNECTED_SUBGRAPH | SORTED_WRT_EXECUTION_ORDER | GENERAL | UNKNOWN_TYPE

text \<open>
  Modelled from the spec: \<^verbatim>\<open>transform::Graph\<close> and its \<^verbatim>\<open>Node\<close> are declared in
  \<^verbatim>\<open>graph.h\<close>, which is not among the sources. A node carries an active flag and two
  neighbour maps from a node index to the labels of the connecting edges. A neighbour
  map (\<^verbatim>\<open>std::map<int, std::vector<string>>\<close>) is the list of its entries in iteration
  order. A graph is the list of its nodes; node \<open>i\<close> is the element at position \<open>i\<close>.
\<close>

record Node =
  active :: bool
  parents :: "(int \<times> string list) list"
  children :: "(int \<times> string list) list"

type_synonym Graph = "Node list"

text \<open>\<^verbatim>\<open>v.at(i)\<close> of a \<^verbatim>\<open>std::vector\<close>: bounds-checked; a negative \<^verbatim>\<open>int\<close> converts to
  a huge unsigned index and is out of range as well.\<close>

definition vector_at :: "'a list \<Rightarrow> int \<Rightarrow> error + 'a" where
  "vector_at v i = (if 0 \<le> i \<and> i < int (length v) then Inr (v ! nat i) else Inl OutOfRange)"

text \<open>Modelled from the spec: \<^verbatim>\<open>graph.size()\<close>, \<^verbatim>\<open>graph.node(i)\<close> and
  \<^verbatim>\<open>graph.is_node_active(i)\<close> of the absent \<^verbatim>\<open>graph.h\<close>. The spec gives their results
  for an index in \<open>[0, N)\<close> only; outside it the model raises, like \<^verbatim>\<open>at\<close>.\<close>

definition graph_size :: "Graph \<Rightarrow> int" where
  "graph_size g = int (length g)"

definition node :: "Graph \<Rightarrow> int \<Rightarrow> error + Node" where
  "node g idx = vector_at g idx"

definition is_node_active :: "Graph \<Rightarrow> int \<Rightarrow> error + bool" where
  "is_node_active g idx = (case node g idx of Inl e \<Rightarrow> Inl e | Inr nd \<Rightarrow> Inr (active nd))"

text \<open>
  The class \<^verbatim>\<open>Transform\<close>: its three virtual rules and the configured strategy
  (the member \<^verbatim>\<open>pattern_match_type_\<close>). \<^verbatim>\<open>PatternRule\<close> and \<^verbatim>\<open>ValidatorRule\<close> read the
  graph and the subgraph through const references and return a \<^verbatim>\<open>bool\<close>;
  \<^verbatim>\<open>ReplaceRule\<close> gets a pointer to the graph and returns a \<^verbatim>\<open>bool\<close>, so here it returns
  the flag together with the graph it leaves behind. The rules are functions of their
  arguments: a rule that keeps a state of its own or raises is outside this model.
\<close>

record Transform =
  PatternRule :: "Graph \<Rightarrow> int list \<Rightarrow> int \<Rightarrow> bool"
  ValidatorRule :: "Graph \<Rightarrow> int list \<Rightarrow> bool"
  ReplaceRule :: "int list \<Rightarrow> Graph \<Rightarrow> bool \<times> Graph"
  pattern_match_type :: PatternMatchType

section \<open>The recursive expansion\<close>

text \<open>
  The search state is the pair of the two vectors reached through \<^verbatim>\<open>subgraph_ptr\<close> and
  \<^verbatim>\<open>best_subgraph_ptr\<close>. Every function below takes the pair and returns the pair it
  leaves behind, or the exception it raises.

  \<^verbatim>\<open>TryNeighbors\<close> and \<^verbatim>\<open>PatternMatchHelper\<close> call each other. Here the callee
  \<^verbatim>\<open>PatternMatchHelper(graph, matched, subgraph_ptr, best_subgraph_ptr)\<close> is the
  argument \<open>rec\<close> of each loop; \<open>PatternMatchHelper_fuel\<close> ties the knot. The loops hand
  the best-subgraph buffer on without looking at it, so its type is left open.
\<close>

text \<open>The block that occurs four times in the source (in \<^verbatim>\<open>PatternMatch\<close>, in
  \<^verbatim>\<open>TryNeighbors\<close> and in two branches of \<^verbatim>\<open>PatternMatchHelper\<close>):
  \<^verbatim>\<open>if (!matched.at(j) && PatternRule(graph, subgraph, j)) {
    subgraph.push_back(j); PatternMatchHelper(...); subgraph.pop_back(); }\<close>
  \<^verbatim>\<open>pop_back\<close> removes the last element of whatever the callee left.\<close>

definition try_candidate ::
  "(int list \<Rightarrow> 'b \<Rightarrow> error + int list \<times> 'b) \<Rightarrow> Transform \<Rightarrow> Graph \<Rightarrow> bool list \<Rightarrow>
   int \<Rightarrow> int list \<Rightarrow> 'b \<Rightarrow> error + int list \<times> 'b" where
  "try_candidate rec T g matched j subgraph best =
     (case vector_at matched j of
        Inl e \<Rightarrow> Inl e
      | Inr m \<Rightarrow>
          if \<not> m \<and> PatternRule T g subgraph j then
            (case rec (subgraph @ [j]) best of
               Inl e \<Rightarrow> Inl e
             | Inr (subgraph', best') \<Rightarrow> Inr (butlast subgraph', best'))
          else Inr (subgraph, best))"

fun TryNeighbors ::
  "(int list \<Rightarrow> 'b \<Rightarrow> error + int list \<times> 'b) \<Rightarrow> Transform \<Rightarrow> Graph \<Rightarrow>
   (int \<times> string list) list \<Rightarrow> bool list \<Rightarrow> int list \<Rightarrow> 'b \<Rightarrow> error + int list \<times> 'b" where
  "TryNeighbors rec T g [] matched subgraph best = Inr (subgraph, best)"
| "TryNeighbors rec T g (edge # neighbors) matched subgraph best =
     (if fst edge \<notin> set subgraph then
        (case try_candidate rec T g matched (fst edge) subgraph best of
           Inl e \<Rightarrow> Inl e
         | Inr (subgraph', best') \<Rightarrow> TryNeighbors rec T g neighbors matched subgraph' best')
      else TryNeighbors rec T g neighbors matched subgraph best)"

text \<open>The loop of the \<^verbatim>\<open>CONNECTED_SUBGRAPH\<close> branch, from position \<open>i\<close> on. Its bound
  \<^verbatim>\<open>subgraph.size()\<close> is read again at every test.\<close>

function connected_loop ::
  "(int list \<Rightarrow> 'b \<Rightarrow> error + int list \<times> 'b) \<Rightarrow> Transform \<Rightarrow> Graph \<Rightarrow> bool list \<Rightarrow>
   nat \<Rightarrow> nat \<Rightarrow> int list \<Rightarrow> 'b \<Rightarrow> error + int list \<times> 'b" where
  "connected_loop rec T g matched size_before i subgraph best =
     (if i < length subgraph then
        (case node g (subgraph ! i) of
           Inl e \<Rightarrow> Inl e
         | Inr nd \<Rightarrow>
            (case TryNeighbors rec T g (children nd) matched subgraph best of
               Inl e \<Rightarrow> Inl e
             | Inr (subgraph1, best1) \<Rightarrow>
                 if size_before \<noteq> length subgraph1 then Inl EnforceNotMet
                 else
                   (case node g (subgraph ! i) of
                      Inl e \<Rightarrow> Inl e
                    | Inr nd' \<Rightarrow>
                       (case TryNeighbors rec T g (parents nd') matched subgraph1 best1 of
                          Inl e \<Rightarrow> Inl e
                        | Inr (subgraph2, best2) \<Rightarrow>
                            if size_before \<noteq> length subgraph2 then Inl EnforceNotMet
                            else connected_loop rec T g matched size_before (Suc i)
                                   subgraph2 best2))))
      else Inr (subgraph, best))"
  by pat_completeness auto
termination
  by (relation "measure (\<lambda>(rec, T, g, matched, size_before, i, subgraph, best).
        if length subgraph = size_before then size_before - i else Suc size_before)")
     auto

text \<open>The loop of the \<^verbatim>\<open>SORTED_WRT_EXECUTION_ORDER\<close> branch, from index \<open>i\<close> on.\<close>

function sorted_loop ::
  "(int list \<Rightarrow> 'b \<Rightarrow> error + int list \<times> 'b) \<Rightarrow> Transform \<Rightarrow> Graph \<Rightarrow> bool list \<Rightarrow>
   int \<Rightarrow> int list \<Rightarrow> 'b \<Rightarrow> error + int list \<times> 'b" where
  "sorted_loop rec T g matched i subgraph best =
     (if i < graph_size g then
        (case try_candidate rec T g matched i subgraph best of
           Inl e \<Rightarrow> Inl e
         | Inr (subgraph', best') \<Rightarrow> sorted_loop rec T g matched (i + 1) subgraph' best')
      else Inr (subgraph, best))"
  by pat_completeness auto
termination
  by (relation "measure (\<lambda>(rec, T, g, matched, i, subgraph, best). nat (graph_size g - i))")
     auto

text \<open>The loop of the \<^verbatim>\<open>GENERAL\<close> branch, from index \<open>i\<close> on.\<close>

function general_loop ::
  "(int list \<Rightarrow> 'b \<Rightarrow> error + int list \<times> 'b) \<Rightarrow> Transform \<Rightarrow> Graph \<Rightarrow> bool list \<Rightarrow>
   int \<Rightarrow> int list \<Rightarrow> 'b \<Rightarrow> error + int list \<times> 'b" where
  "general_loop rec T g matched i subgraph best =
     (if i < graph_size g then
        (if i \<notin> set subgraph then
           (case try_candidate rec T g matched i subgraph best of
              Inl e \<Rightarrow> Inl e
            | Inr (subgraph', best') \<Rightarrow> general_loop rec T g matched (i + 1) subgraph' best')
         else general_loop rec T g matched (i + 1) subgraph best)
      else Inr (subgraph, best))"
  by pat_completeness auto
termination
  by (relation "measure (\<lambda>(rec, T, g, matched, i, subgraph, best). nat (graph_size g - i))")
     auto

text \<open>\<^verbatim>\<open>PatternMatchHelper\<close> from \<^verbatim>\<open>int size_before = subgraph.size();\<close> on: the branch
  on the strategy.\<close>

definition expand ::
  "(int list \<Rightarrow> 'b \<Rightarrow> error + int list \<times> 'b) \<Rightarrow> Transform \<Rightarrow> Graph \<Rightarrow> bool list \<Rightarrow>
   int list \<Rightarrow> 'b \<Rightarrow> error + int list \<times> 'b" where
  "expand rec T g matched subgraph best =
     (let size_before = length subgraph in
      case pattern_match_type T of
        CONNECTED_SUBGRAPH \<Rightarrow> connected_loop rec T g matched size_before 0 subgraph best
      | SORTED_WRT_EXECUTION_ORDER \<Rightarrow>
          (let start_idx = (if length subgraph > 0 then last subgraph + 1 else 0)
           in sorted_loop rec T g matched start_idx subgraph best)
      | GENERAL \<Rightarrow> general_loop rec T g matched 0 subgraph best
      | UNKNOWN_TYPE \<Rightarrow> Inl NotImplemented)"

text \<open>The first statement of \<^verbatim>\<open>PatternMatchHelper\<close>: the best subgraph after the test
  \<^verbatim>\<open>ValidatorRule(graph, subgraph) && subgraph.size() > best_subgraph.size()\<close>.\<close>

definition update_best :: "Transform \<Rightarrow> Graph \<Rightarrow> int list \<Rightarrow> int list \<Rightarrow> int list" where
  "update_best T g subgraph best_subgraph =
     (if ValidatorRule T g subgraph \<and> length subgraph > length best_subgraph
      then subgraph else best_subgraph)"

text \<open>The body of \<^verbatim>\<open>PatternMatchHelper\<close>, with its recursive call as \<open>rec\<close>. (The two
  \<^verbatim>\<open>CHECK\<close>s of the pointers hold for every call in the file.)\<close>

definition PatternMatchHelper_body ::
  "(int list \<Rightarrow> int list \<Rightarrow> error + int list \<times> int list) \<Rightarrow> Transform \<Rightarrow> Graph \<Rightarrow>
   bool list \<Rightarrow> int list \<Rightarrow> int list \<Rightarrow> error + int list \<times> int list" where
  "PatternMatchHelper_body rec T g matched subgraph best_subgraph =
     expand rec T g matched subgraph (update_best T g subgraph best_subgraph)"

text \<open>The recursion, cut off at depth \<open>n\<close>.\<close>

fun PatternMatchHelper_fuel ::
  "nat \<Rightarrow> Transform \<Rightarrow> Graph \<Rightarrow> bool list \<Rightarrow> int list \<Rightarrow> int list \<Rightarrow>
   error + int list \<times> int list" where
  "PatternMatchHelper_fuel 0 T g matched subgraph best_subgraph = Inl OutOfFuel"
| "PatternMatchHelper_fuel (Suc n) T g matched subgraph best_subgraph =
     PatternMatchHelper_body (PatternMatchHelper_fuel n T g matched) T g matched
       subgraph best_subgraph"

text \<open>\<^verbatim>\<open>Transform::PatternMatchHelper\<close>. Every candidate passes \<^verbatim>\<open>matched.at\<close> and is
  either new to the subgraph or beyond its last element, so the recursion is never
  deeper than the length of \<open>matched\<close> plus one. With this bound the function
  satisfies the recursive equation of the source for all arguments
  (\<open>PatternMatchHelper_unfold\<close>): it is its own body with itself as the callee.\<close>

definition PatternMatchHelper ::
  "Transform \<Rightarrow> Graph \<Rightarrow> bool list \<Rightarrow> int list \<Rightarrow> int list \<Rightarrow> error + int list \<times> int list" where
  "PatternMatchHelper T g matched subgraph best_subgraph =
     PatternMatchHelper_fuel (Suc (length matched)) T g matched subgraph best_subgraph"

section \<open>The matcher\<close>

text \<open>\<^verbatim>\<open>for (const auto& x : best_subgraph) matched[x] = true;\<close> The write is not
  bounds-checked; every \<open>x\<close> it is reached with has passed \<^verbatim>\<open>matched.at(x)\<close> before
  (\<open>found_unmatched\<close>).\<close>

definition mark_matched :: "bool list \<Rightarrow> int list \<Rightarrow> bool list" where
  "mark_matched matched best_subgraph = fold (\<lambda>x m. m[nat x := True]) best_subgraph matched"

text \<open>The loop of \<^verbatim>\<open>Transform::PatternMatch\<close> from start index \<open>idx\<close> on. The two vectors
  \<^verbatim>\<open>subgraph\<close> and \<^verbatim>\<open>best_subgraph\<close> are fresh (empty) in every round.\<close>

function PatternMatch_loop ::
  "Transform \<Rightarrow> Graph \<Rightarrow> int \<Rightarrow> bool list \<Rightarrow> int list list \<Rightarrow> error + int list list" where
  "PatternMatch_loop T g idx matched matches =
     (if idx < graph_size g then
        (case try_candidate (PatternMatchHelper T g matched) T g matched idx [] [] of
           Inl e \<Rightarrow> Inl e
         | Inr (subgraph, best_subgraph) \<Rightarrow>
             if length best_subgraph > 0 then
               PatternMatch_loop T g (idx + 1) (mark_matched matched best_subgraph)
                 (matches @ [best_subgraph])
             else PatternMatch_loop T g (idx + 1) matched matches)
      else Inr matches)"
  by pat_completeness auto
termination
  by (relation "measure (\<lambda>(T, g, idx, matched, matches). nat (graph_size g - idx))") auto

definition PatternMatch :: "Transform \<Rightarrow> Graph \<Rightarrow> error + int list list" where
  "PatternMatch T g = PatternMatch_loop T g 0 (replicate (length g) False) []"

section \<open>The apply phase\<close>

text \<open>The inner loop of \<^verbatim>\<open>Transform::ReplacePattern\<close>: it looks at every index of the
  match, also after the flag has become false.\<close>

fun is_match_active_loop :: "Graph \<Rightarrow> int list \<Rightarrow> bool \<Rightarrow> error + bool" where
  "is_match_active_loop graph [] is_match_active = Inr is_match_active"
| "is_match_active_loop graph (idx # rest) is_match_active =
     (case is_node_active graph idx of
        Inl e \<Rightarrow> Inl e
      | Inr a \<Rightarrow> is_match_active_loop graph rest (if \<not> a then False else is_match_active))"

text \<open>\<^verbatim>\<open>Transform::ReplacePattern\<close>. The graph is changed in place, so an exception
  leaves the graph as it was when raised: \<open>Inl (e, graph)\<close>.\<close>

fun ReplacePattern :: "Transform \<Rightarrow> int list list \<Rightarrow> Graph \<Rightarrow> error \<times> Graph + Graph" where
  "ReplacePattern T [] graph = Inr graph"
| "ReplacePattern T (match # matches) graph =
     (case is_match_active_loop graph match True of
        Inl e \<Rightarrow> Inl (e, graph)
      | Inr is_match_active \<Rightarrow>
          if is_match_active then
            (case ReplaceRule T match graph of
               (ok, graph') \<Rightarrow>
                 if \<not> ok then Inl (ReplaceFailed, graph')
                 else ReplacePattern T matches graph')
          else ReplacePattern T matches graph)"

text \<open>\<^verbatim>\<open>Transform::ApplyTo\<close> between the construction of the graph from the net and
  the export of the net from the graph, both of which \<^verbatim>\<open>transform.cc\<close> leaves to the
  class \<^verbatim>\<open>Graph\<close>. The matcher gets the graph as a const reference: the graph is an
  argument of \<open>PatternMatch\<close> and no part of its result, and \<open>ReplacePattern\<close> starts
  from the graph that was passed in.\<close>

definition ApplyTo :: "Transform \<Rightarrow> Graph \<Rightarrow> error \<times> Graph + Graph" where
  "ApplyTo T g =
     (case PatternMatch T g of
        Inl e \<Rightarrow> Inl (e, g)
      | Inr matches \<Rightarrow> ReplacePattern T matches g)"

section \<open>Notions used in the statements\<close>

text \<open>The indices a node lists as neighbours: the keys of \<^verbatim>\<open>children\<close>, then the keys of
  \<^verbatim>\<open>parents\<close>; none for an index that names no node.\<close>

definition neighbor_keys :: "Graph \<Rightarrow> int \<Rightarrow> int list" where
  "neighbor_keys g x =
     (case node g x of Inl e \<Rightarrow> [] | Inr nd \<Rightarrow> map fst (children nd) @ map fst (parents nd))"

text \<open>\<open>candidate T g matched sg j\<close>: index \<open>j\<close> passes every test that stands between
  the working subgraph \<open>sg\<close> and the recursive call on \<open>sg @ [j]\<close> under the configured
  strategy.\<close>

definition candidate :: "Transform \<Rightarrow> Graph \<Rightarrow> bool list \<Rightarrow> int list \<Rightarrow> int \<Rightarrow> bool" where
  "candidate T g matched sg j =
     (vector_at matched j = Inr False \<and> PatternRule T g sg j \<and>
      (case pattern_match_type T of
         CONNECTED_SUBGRAPH \<Rightarrow> j \<notin> set sg \<and> (\<exists>x\<in>set sg. j \<in> set (neighbor_keys g x))
       | SORTED_WRT_EXECUTION_ORDER \<Rightarrow> (sg \<noteq> [] \<longrightarrow> last sg < j) \<and> j < graph_size g
       | GENERAL \<Rightarrow> j \<notin> set sg \<and> j < graph_size g
       | UNKNOWN_TYPE \<Rightarrow> False))"

text \<open>\<open>grown T g matched sg ext\<close>: the indices \<open>ext\<close> can be appended to \<open>sg\<close> one
  after the other, each a candidate for the subgraph before it.\<close>

fun grown :: "Transform \<Rightarrow> Graph \<Rightarrow> bool list \<Rightarrow> int list \<Rightarrow> int list \<Rightarrow> bool" where
  "grown T g matched sg [] = True"
| "grown T g matched sg (j # ext) =
     (candidate T g matched sg j \<and> grown T g matched (sg @ [j]) ext)"

text \<open>\<open>improved T g matched sg best best'\<close>: the buffer \<open>best'\<close> is \<open>best\<close> unchanged, or
  a longer, validated subgraph grown from \<open>sg\<close>.\<close>

definition improved ::
  "Transform \<Rightarrow> Graph \<Rightarrow> bool list \<Rightarrow> int list \<Rightarrow> int list \<Rightarrow> int list \<Rightarrow> bool" where
  "improved T g matched sg best best' =
     (best' = best \<or>
      (length best < length best' \<and> ValidatorRule T g best' \<and>
       take (length sg) best' = sg \<and> grown T g matched sg (drop (length sg) best')))"

text \<open>Two results agree: both raise, with errors related by \<open>E\<close>, or both return with
  the subgraph \<open>s\<close> and buffers related by \<open>R\<close>.\<close>

definition sim_result ::
  "(error \<Rightarrow> error \<Rightarrow> bool) \<Rightarrow> int list \<Rightarrow> ('a \<Rightarrow> 'b \<Rightarrow> bool) \<Rightarrow>
   (error + int list \<times> 'a) \<Rightarrow> (error + int list \<times> 'b) \<Rightarrow> bool" where
  "sim_result E s R r1 r2 =
     (case r1 of
        Inl e1 \<Rightarrow> (case r2 of Inl e2 \<Rightarrow> E e1 e2 | Inr p2 \<Rightarrow> False)
      | Inr p1 \<Rightarrow> (case r2 of Inl e2 \<Rightarrow> False
                  | Inr p2 \<Rightarrow> fst p1 = s \<and> fst p2 = s \<and> R (snd p1) (snd p2)))"

text \<open>A bound on the depth of the recursion below the working subgraph \<open>sg\<close>: the
  number of indices that can still be appended.\<close>

definition depth_bound :: "Transform \<Rightarrow> bool list \<Rightarrow> int list \<Rightarrow> nat" where
  "depth_bound T matched sg =
     (case pattern_match_type T of
        SORTED_WRT_EXECUTION_ORDER \<Rightarrow>
          (if sg = [] then length matched
           else nat (int (length matched) - 1 - max (last sg) (- 1)))
      | UNKNOWN_TYPE \<Rightarrow> 0
      | _ \<Rightarrow> card ({0..<int (length matched)} - set sg))"

text \<open>The exploration order. \<open>explore_fuel\<close> runs the expansion of \<open>PatternMatchHelper\<close>
  with a log in the place of the best-subgraph buffer: every entry into the helper
  appends the working subgraph it is entered with. \<open>explored T g matched sg\<close> is the
  list of the working subgraphs visited by a call on \<open>sg\<close>, in the order of the visits.\<close>

fun explore_fuel ::
  "nat \<Rightarrow> Transform \<Rightarrow> Graph \<Rightarrow> bool list \<Rightarrow> int list \<Rightarrow> int list list \<Rightarrow>
   error + int list \<times> int list list" where
  "explore_fuel 0 T g matched subgraph log = Inl OutOfFuel"
| "explore_fuel (Suc n) T g matched subgraph log =
     expand (explore_fuel n T g matched) T g matched subgraph (log @ [subgraph])"

definition explored :: "Transform \<Rightarrow> Graph \<Rightarrow> bool list \<Rightarrow> int list \<Rightarrow> error + int list list" where
  "explored T g matched subgraph =
     (case explore_fuel (Suc (length matched)) T g matched subgraph [] of
        Inl e \<Rightarrow> Inl e
      | Inr (subgraph', log) \<Rightarrow> Inr log)"

text \<open>The best-subgraph buffer after the subgraphs \<open>log\<close> have gone through the first
  statement of \<open>PatternMatchHelper\<close> one after the other, starting from \<open>best\<close>.\<close>

definition best_after :: "Transform \<Rightarrow> Graph \<Rightarrow> int list \<Rightarrow> int list list \<Rightarrow> int list" where
  "best_after T g best log = foldl (\<lambda>b s. update_best T g s b) best log"

text \<open>\<open>adjacent g x y\<close>: node \<open>x\<close> lists \<open>y\<close> as a child or as a parent.\<close>

definition adjacent :: "Graph \<Rightarrow> int \<Rightarrow> int \<Rightarrow> bool" where
  "adjacent g x y = (y \<in> set (neighbor_keys g x))"

text \<open>\<open>graph_ok g\<close>: every key of a neighbour map of \<open>g\<close> is the index of a node of
  \<open>g\<close>.\<close>

definition graph_ok :: "Graph \<Rightarrow> bool" where
  "graph_ok g =
     (\<forall>nd\<in>set g. \<forall>j\<in>set (map fst (children nd) @ map fst (parents nd)).
        0 \<le> j \<and> j < graph_size g)"

text \<open>\<open>match_ok T g m\<close>: what the matcher guarantees of a match \<open>m\<close>, whatever the
  registry was when it was found.\<close>

definition match_ok :: "Transform \<Rightarrow> Graph \<Rightarrow> int list \<Rightarrow> bool" where
  "match_ok T g m =
     (m \<noteq> [] \<and> distinct m \<and> (\<forall>x\<in>set m. 0 \<le> x \<and> x < graph_size g) \<and>
      (\<forall>k<length m. PatternRule T g (take k m) (m ! k)) \<and> ValidatorRule T g m \<and>
      (pattern_match_type T = SORTED_WRT_EXECUTION_ORDER \<longrightarrow> sorted_wrt (<) m) \<and>
      (pattern_match_type T = CONNECTED_SUBGRAPH \<longrightarrow>
         (\<forall>k<length m. 0 < k \<longrightarrow> (\<exists>i<k. m ! k \<in> set (neighbor_keys g (m ! i))))))"

text \<open>The invariant of the loop of \<^verbatim>\<open>PatternMatch\<close> before the round of start index
  \<open>idx\<close>: the registry has one flag per node, every match recorded so far is
  \<open>match_ok\<close>, starts below \<open>idx\<close> and has all its nodes marked, the matches are
  pairwise disjoint and their first elements increase.\<close>

definition registry_ok ::
  "Transform \<Rightarrow> Graph \<Rightarrow> int \<Rightarrow> bool list \<Rightarrow> int list list \<Rightarrow> bool" where
  "registry_ok T g idx matched matches =
     (length matched = length g \<and> 0 \<le> idx \<and>
      (\<forall>m\<in>set matches. match_ok T g m \<and> hd m < idx \<and>
                        (\<forall>x\<in>set m. vector_at matched x = Inr True)) \<and>
      sorted_wrt (\<lambda>a b. set a \<inter> set b = {}) matches \<and>
      sorted_wrt (<) (map hd matches))"

section \<open>Example inputs\<close>

text \<open>The chain of three nodes \<open>0 \<rightarrow> 1 \<rightarrow> 2\<close>, all active.\<close>

definition chain_graph :: Graph where
  "chain_graph =
     [\<lparr>active = True, parents = [], children = [(1, [''x''])]\<rparr>,
      \<lparr>active = True, parents = [(0, [''x''])], children = [(2, [''y''])]\<rparr>,
      \<lparr>active = True, parents = [(1, [''y''])], children = []\<rparr>]"

text \<open>A rewrite: the nodes of the match become inactive.\<close>

definition deactivate :: "int list \<Rightarrow> Graph \<Rightarrow> Graph" where
  "deactivate m g = fold (\<lambda>x h. h[nat x := (h ! nat x)\<lparr>active := False\<rparr>]) m g"

text \<open>A transform that accepts every candidate, validates the subgraphs \<open>V\<close> holds
  for, and whose rewrite deactivates the nodes of the match and reports success.\<close>

definition accept_all :: "(int list \<Rightarrow> bool) \<Rightarrow> PatternMatchType \<Rightarrow> Transform" where
  "accept_all V ty =
     \<lparr>PatternRule = (\<lambda>g sg j. True), ValidatorRule = (\<lambda>g sg. V sg),
      ReplaceRule = (\<lambda>m g. (True, deactivate m g)), pattern_match_type = ty\<rparr>"

text \<open>The transform \<open>accept_all V ty\<close>, except that its rewrite reports failure on
  the match \<open>bad\<close> (after deactivating its nodes).\<close>

definition failing_on :: "int list \<Rightarrow> (int list \<Rightarrow> bool) \<Rightarrow> PatternMatchType \<Rightarrow> Transform" where
  "failing_on bad V ty =
     (accept_all V ty)\<lparr>ReplaceRule := (\<lambda>m g. (m \<noteq> bad, deactivate m g))\<rparr>"

text \<open>Two callees to put in the place of the recursive call: one that returns at once,
  and one that returns with one more element on the working subgraph than it was
  given.\<close>

definition do_nothing :: "int list \<Rightarrow> int list \<Rightarrow> error + int list \<times> int list" where
  "do_nothing sg best = Inr (sg, best)"

definition grow_by_one :: "int list \<Rightarrow> int list \<Rightarrow> error + int list \<times> int list" where
  "grow_by_one sg best = Inr (sg @ [99], best)"

text \<open>A callee that raises the error of a failed \<^verbatim>\<open>CAFFE_ENFORCE\<close>.\<close>

definition breach :: "int list \<Rightarrow> int list \<Rightarrow> error + int list \<times> int list" where
  "breach sg best = Inl EnforceNotMet"

text \<open>Validators: subgraphs of exactly one node; subgraphs of at least two nodes.\<close>

definition single :: "int list \<Rightarrow> bool" where
  "single sg = (length sg = 1)"

definition at_least_two :: "int list \<Rightarrow> bool" where
  "at_least_two sg = (2 \<le> length sg)"

section \<open>Simulation of the loops\<close>

lemma sim_resultE:
  assumes "sim_result E s R r1 r2"
  obtains (err) e1 e2 where "r1 = Inl e1" "r2 = Inl e2" "E e1 e2"
        | (ok) b1 b2 where "r1 = Inr (s, b1)" "r2 = Inr (s, b2)" "R b1 b2"
  using assms by (auto simp: sim_result_def split: sum.splits)

lemma sim_result_mono:
  assumes "sim_result E s R r1 r2"
    and "\<And>e1 e2. E e1 e2 \<Longrightarrow> E' e1 e2" and "\<And>b1 b2. R b1 b2 \<Longrightarrow> R' b1 b2"
  shows "sim_result E' s R' r1 r2"
  using assms by (auto simp: sim_result_def split: sum.splits)

lemma sim_result_eq:
  assumes "sim_result E s (=) r1 r2" and "\<And>e1 e2. E e1 e2 \<Longrightarrow> e1 = e2"
  shows "r1 = r2"
  using assms(1)
proof (cases rule: sim_resultE)
  case (err e1 e2)
  then show ?thesis using assms(2) by simp
next
  case (ok b1 b2)
  then show ?thesis by simp
qed

lemma vector_at_Inl: "vector_at v i = Inl e \<Longrightarrow> e = OutOfRange"
  by (auto simp: vector_at_def split: if_splits)

lemma vector_at_Inr: "vector_at v i = Inr x \<Longrightarrow> 0 \<le> i \<and> i < int (length v) \<and> x = v ! nat i"
  by (auto simp: vector_at_def split: if_splits)

lemma node_Inl: "node g x = Inl e \<Longrightarrow> e = OutOfRange"
  by (simp add: node_def vector_at_Inl)

lemma node_Inr:
  "0 \<le> x \<Longrightarrow> x < graph_size g \<Longrightarrow> node g x = Inr (g ! nat x)"
  by (simp add: node_def vector_at_def graph_size_def)

lemma try_candidate_sim:
  assumes rec: "vector_at matched j = Inr False \<Longrightarrow> PatternRule T g sg j \<Longrightarrow>
                  sim_result E (sg @ [j]) R (rec1 (sg @ [j]) b1) (rec2 (sg @ [j]) b2)"
    and R: "R b1 b2" and E: "E OutOfRange OutOfRange"
  shows "sim_result E sg R (try_candidate rec1 T g matched j sg b1)
                           (try_candidate rec2 T g matched j sg b2)"
proof (cases "vector_at matched j")
  case (Inl e)
  with E vector_at_Inl [OF Inl] show ?thesis by (simp add: try_candidate_def sim_result_def)
next
  case (Inr m)
  show ?thesis
  proof (cases "\<not> m \<and> PatternRule T g sg j")
    case True
    with Inr have "sim_result E (sg @ [j]) R (rec1 (sg @ [j]) b1) (rec2 (sg @ [j]) b2)"
      using rec by simp
    then show ?thesis
      using Inr True by (auto simp: try_candidate_def sim_result_def split: sum.splits)
  next
    case False
    with Inr R show ?thesis by (auto simp: try_candidate_def sim_result_def)
  qed
qed

lemma TryNeighbors_sim:
  assumes rec: "\<And>j b1 b2. j \<in> fst ` set neighbors \<Longrightarrow> j \<notin> set sg \<Longrightarrow>
                  vector_at matched j = Inr False \<Longrightarrow> PatternRule T g sg j \<Longrightarrow> R b1 b2 \<Longrightarrow>
                  sim_result E (sg @ [j]) R (rec1 (sg @ [j]) b1) (rec2 (sg @ [j]) b2)"
    and R: "R b1 b2" and E: "E OutOfRange OutOfRange"
  shows "sim_result E sg R (TryNeighbors rec1 T g neighbors matched sg b1)
                           (TryNeighbors rec2 T g neighbors matched sg b2)"
  using rec R
proof (induction neighbors arbitrary: b1 b2)
  case Nil
  then show ?case by (simp add: sim_result_def)
next
  case (Cons edge neighbors)
  show ?case
  proof (cases "fst edge \<in> set sg")
    case True
    then show ?thesis using Cons.IH [OF _ Cons.prems(2)] Cons.prems(1) by simp
  next
    case False
    have "sim_result E sg R (try_candidate rec1 T g matched (fst edge) sg b1)
                            (try_candidate rec2 T g matched (fst edge) sg b2)"
      using False Cons.prems by (intro try_candidate_sim E) auto
    then show ?thesis
    proof (cases rule: sim_resultE)
      case (err e1 e2)
      then show ?thesis using False by (simp add: sim_result_def)
    next
      case (ok c1 c2)
      have "sim_result E sg R (TryNeighbors rec1 T g neighbors matched sg c1)
                              (TryNeighbors rec2 T g neighbors matched sg c2)"
        using Cons.prems(1) ok(3) by (intro Cons.IH) auto
      then show ?thesis using False ok by simp
    qed
  qed
qed

declare connected_loop.simps [simp del] sorted_loop.simps [simp del] general_loop.simps [simp del]

lemma connected_loop_sim:
  assumes rec: "\<And>j b1 b2 k. i \<le> k \<Longrightarrow> k < length sg \<Longrightarrow> j \<in> set (neighbor_keys g (sg ! k)) \<Longrightarrow>
                  j \<notin> set sg \<Longrightarrow> vector_at matched j = Inr False \<Longrightarrow> PatternRule T g sg j \<Longrightarrow>
                  R b1 b2 \<Longrightarrow>
                  sim_result E (sg @ [j]) R (rec1 (sg @ [j]) b1) (rec2 (sg @ [j]) b2)"
    and R: "R b1 b2" and E: "E OutOfRange OutOfRange" "E EnforceNotMet EnforceNotMet"
  shows "sim_result E sg R (connected_loop rec1 T g matched sb i sg b1)
                           (connected_loop rec2 T g matched sb i sg b2)"
  using rec R
proof (induction "length sg - i" arbitrary: i b1 b2)
  case 0
  then have "\<not> i < length sg" by simp
  then show ?case using "0.prems"(2)
    by (simp add: connected_loop.simps [of _ _ _ _ _ i] sim_result_def)
next
  case (Suc n)
  then have i: "i < length sg" by simp
  show ?case
  proof (cases "node g (sg ! i)")
    case (Inl e)
    with i E(1) node_Inl [OF Inl] show ?thesis
      by (simp add: connected_loop.simps [of _ _ _ _ _ i] sim_result_def)
  next
    case (Inr nd)
    have keys: "set (neighbor_keys g (sg ! i)) = fst ` set (children nd) \<union> fst ` set (parents nd)"
      using Inr by (simp add: neighbor_keys_def)
    have "sim_result E sg R (TryNeighbors rec1 T g (children nd) matched sg b1)
                            (TryNeighbors rec2 T g (children nd) matched sg b2)"
      using Suc.prems(1) [of i] i keys Suc.prems(2) by (intro TryNeighbors_sim E) auto
    then show ?thesis
    proof (cases rule: sim_resultE)
      case (err e1 e2)
      then show ?thesis using i Inr
        by (simp add: connected_loop.simps [of _ _ _ _ _ i] sim_result_def)
    next
      case child: (ok c1 c2)
      show ?thesis
      proof (cases "sb = length sg")
        case False
        then show ?thesis using i Inr child E(2)
          by (simp add: connected_loop.simps [of _ _ _ _ _ i] sim_result_def)
      next
        case True
        have "sim_result E sg R (TryNeighbors rec1 T g (parents nd) matched sg c1)
                                (TryNeighbors rec2 T g (parents nd) matched sg c2)"
          using Suc.prems(1) [of i] i keys child(3) by (intro TryNeighbors_sim E) auto
        then show ?thesis
        proof (cases rule: sim_resultE)
          case (err e1 e2)
          then show ?thesis using i Inr child True
            by (simp add: connected_loop.simps [of _ _ _ _ _ i] sim_result_def)
        next
          case par: (ok d1 d2)
          have "sim_result E sg R (connected_loop rec1 T g matched sb (Suc i) sg d1)
                                  (connected_loop rec2 T g matched sb (Suc i) sg d2)"
          proof (rule Suc.hyps(1))
            show "n = length sg - Suc i" using Suc.hyps(2) by simp
            show "R d1 d2" by (rule par(3))
          next
            fix j b1 b2 k
            assume "Suc i \<le> k" "k < length sg" "j \<in> set (neighbor_keys g (sg ! k))"
              "j \<notin> set sg" "vector_at matched j = Inr False" "PatternRule T g sg j" "R b1 b2"
            then show "sim_result E (sg @ [j]) R (rec1 (sg @ [j]) b1) (rec2 (sg @ [j]) b2)"
              using Suc.prems(1) [of k j b1 b2] by simp
          qed
          then show ?thesis using i Inr child True par
            by (simp add: connected_loop.simps [of _ _ _ _ _ i])
        qed
      qed
    qed
  qed
qed

lemma sorted_loop_sim:
  assumes rec: "\<And>j b1 b2. i \<le> j \<Longrightarrow> j < graph_size g \<Longrightarrow>
                  vector_at matched j = Inr False \<Longrightarrow> PatternRule T g sg j \<Longrightarrow> R b1 b2 \<Longrightarrow>
                  sim_result E (sg @ [j]) R (rec1 (sg @ [j]) b1) (rec2 (sg @ [j]) b2)"
    and R: "R b1 b2" and E: "E OutOfRange OutOfRange"
  shows "sim_result E sg R (sorted_loop rec1 T g matched i sg b1)
                           (sorted_loop rec2 T g matched i sg b2)"
  using rec R
proof (induction "nat (graph_size g - i)" arbitrary: i b1 b2)
  case 0
  then have "\<not> i < graph_size g" by simp
  then show ?case using "0.prems"(2)
    by (simp add: sorted_loop.simps [of _ _ _ _ i] sim_result_def)
next
  case (Suc n)
  then have i: "i < graph_size g" by simp
  have "sim_result E sg R (try_candidate rec1 T g matched i sg b1)
                          (try_candidate rec2 T g matched i sg b2)"
    using Suc.prems i by (intro try_candidate_sim E) auto
  then show ?case
  proof (cases rule: sim_resultE)
    case (err e1 e2)
    then show ?thesis using i by (simp add: sorted_loop.simps [of _ _ _ _ i] sim_result_def)
  next
    case (ok c1 c2)
    have "sim_result E sg R (sorted_loop rec1 T g matched (i + 1) sg c1)
                            (sorted_loop rec2 T g matched (i + 1) sg c2)"
      using Suc.hyps(2) Suc.prems(1) ok(3) by (intro Suc.hyps(1)) auto
    then show ?thesis using i ok by (simp add: sorted_loop.simps [of _ _ _ _ i])
  qed
qed

lemma general_loop_sim:
  assumes rec: "\<And>j b1 b2. i \<le> j \<Longrightarrow> j < graph_size g \<Longrightarrow> j \<notin> set sg \<Longrightarrow>
                  vector_at matched j = Inr False \<Longrightarrow> PatternRule T g sg j \<Longrightarrow> R b1 b2 \<Longrightarrow>
                  sim_result E (sg @ [j]) R (rec1 (sg @ [j]) b1) (rec2 (sg @ [j]) b2)"
    and R: "R b1 b2" and E: "E OutOfRange OutOfRange"
  shows "sim_result E sg R (general_loop rec1 T g matched i sg b1)
                           (general_loop rec2 T g matched i sg b2)"
  using rec R
proof (induction "nat (graph_size g - i)" arbitrary: i b1 b2)
  case 0
  then have "\<not> i < graph_size g" by simp
  then show ?case using "0.prems"(2)
    by (simp add: general_loop.simps [of _ _ _ _ i] sim_result_def)
next
  case (Suc n)
  then have i: "i < graph_size g" by simp
  show ?case
  proof (cases "i \<in> set sg")
    case True
    have "sim_result E sg R (general_loop rec1 T g matched (i + 1) sg b1)
                            (general_loop rec2 T g matched (i + 1) sg b2)"
      using Suc.hyps(2) Suc.prems by (intro Suc.hyps(1)) auto
    then show ?thesis using i True by (simp add: general_loop.simps [of _ _ _ _ i])
  next
    case False
    have "sim_result E sg R (try_candidate rec1 T g matched i sg b1)
                            (try_candidate rec2 T g matched i sg b2)"
      using Suc.prems i False by (intro try_candidate_sim E) auto
    then show ?thesis
    proof (cases rule: sim_resultE)
      case (err e1 e2)
      then show ?thesis using i False
        by (simp add: general_loop.simps [of _ _ _ _ i] sim_result_def)
    next
      case (ok c1 c2)
      have "sim_result E sg R (general_loop rec1 T g matched (i + 1) sg c1)
                              (general_loop rec2 T g matched (i + 1) sg c2)"
        using Suc.hyps(2) Suc.prems(1) ok(3) by (intro Suc.hyps(1)) auto
      then show ?thesis using i ok False by (simp add: general_loop.simps [of _ _ _ _ i])
    qed
  qed
qed

lemma expand_sim:
  assumes rec: "\<And>j b1 b2. candidate T g matched sg j \<Longrightarrow> R b1 b2 \<Longrightarrow>
                  sim_result E (sg @ [j]) R (rec1 (sg @ [j]) b1) (rec2 (sg @ [j]) b2)"
    and R: "R b1 b2"
    and E: "E OutOfRange OutOfRange" "E EnforceNotMet EnforceNotMet"
           "E NotImplemented NotImplemented"
  shows "sim_result E sg R (expand rec1 T g matched sg b1) (expand rec2 T g matched sg b2)"
proof (cases "pattern_match_type T")
  case CONNECTED_SUBGRAPH
  have "sim_result E sg R (connected_loop rec1 T g matched (length sg) 0 sg b1)
                          (connected_loop rec2 T g matched (length sg) 0 sg b2)"
  proof (intro connected_loop_sim E R)
    fix j b1 b2 k
    assume "k < length sg" "j \<in> set (neighbor_keys g (sg ! k))" "j \<notin> set sg"
      "vector_at matched j = Inr False" "PatternRule T g sg j" "R b1 b2"
    then show "sim_result E (sg @ [j]) R (rec1 (sg @ [j]) b1) (rec2 (sg @ [j]) b2)"
      using CONNECTED_SUBGRAPH by (intro rec) (auto simp: candidate_def)
  qed
  then show ?thesis using CONNECTED_SUBGRAPH by (simp add: expand_def)
next
  case SORTED_WRT_EXECUTION_ORDER
  define start :: int where "start = (if length sg > 0 then last sg + 1 else 0)"
  have "sim_result E sg R (sorted_loop rec1 T g matched start sg b1)
                          (sorted_loop rec2 T g matched start sg b2)"
  proof (intro sorted_loop_sim E R)
    fix j b1 b2
    assume "start \<le> j" "j < graph_size g"
      "vector_at matched j = Inr False" "PatternRule T g sg j" "R b1 b2"
    then show "sim_result E (sg @ [j]) R (rec1 (sg @ [j]) b1) (rec2 (sg @ [j]) b2)"
      using SORTED_WRT_EXECUTION_ORDER by (intro rec) (auto simp: candidate_def start_def)
  qed
  then show ?thesis using SORTED_WRT_EXECUTION_ORDER by (simp add: expand_def start_def)
next
  case GENERAL
  have "sim_result E sg R (general_loop rec1 T g matched 0 sg b1)
                          (general_loop rec2 T g matched 0 sg b2)"
  proof (intro general_loop_sim E R)
    fix j b1 b2
    assume "j < graph_size g" "j \<notin> set sg"
      "vector_at matched j = Inr False" "PatternRule T g sg j" "R b1 b2"
    then show "sim_result E (sg @ [j]) R (rec1 (sg @ [j]) b1) (rec2 (sg @ [j]) b2)"
      using GENERAL by (intro rec) (auto simp: candidate_def)
  qed
  then show ?thesis using GENERAL by (simp add: expand_def)
next
  case UNKNOWN_TYPE
  then show ?thesis using E(3) by (simp add: expand_def sim_result_def)
qed

section \<open>The depth of the recursion\<close>

lemma candidate_range: "candidate T g matched sg j \<Longrightarrow> 0 \<le> j \<and> j < int (length matched)"
  by (auto simp: candidate_def dest: vector_at_Inr)

lemma depth_bound_le: "depth_bound T matched sg \<le> length matched"
proof (cases "pattern_match_type T")
  case SORTED_WRT_EXECUTION_ORDER
  then show ?thesis by (auto simp: depth_bound_def)
next
  case CONNECTED_SUBGRAPH
  have "card ({0..<int (length matched)} - set sg) \<le> card {0..<int (length matched)}"
    by (intro card_mono) auto
  then show ?thesis using CONNECTED_SUBGRAPH by (simp add: depth_bound_def)
next
  case GENERAL
  have "card ({0..<int (length matched)} - set sg) \<le> card {0..<int (length matched)}"
    by (intro card_mono) auto
  then show ?thesis using GENERAL by (simp add: depth_bound_def)
next
  case UNKNOWN_TYPE
  then show ?thesis by (simp add: depth_bound_def)
qed

lemma card_Diff_snoc:
  assumes "0 \<le> j" "j < int n" "j \<notin> set sg"
  shows "card ({0..<int n} - set (sg @ [j])) < card ({0..<int n} - set sg)"
proof -
  have "j \<in> {0..<int n} - set sg" using assms by simp
  moreover have "j \<notin> {0..<int n} - set (sg @ [j])" by simp
  moreover have "{0..<int n} - set (sg @ [j]) \<subseteq> {0..<int n} - set sg" by auto
  ultimately have "{0..<int n} - set (sg @ [j]) \<subset> {0..<int n} - set sg" by blast
  moreover have "finite ({0..<int n} - set sg)" by simp
  ultimately show ?thesis by (rule psubset_card_mono [rotated])
qed

lemma depth_bound_sorted_snoc:
  assumes "0 \<le> j" "j < int n" "sg \<noteq> [] \<Longrightarrow> last sg < j"
  shows "nat (int n - 1 - max j (- 1)) < (if sg = [] then n else nat (int n - 1 - max (last sg) (- 1)))"
proof (cases "sg = []")
  case True
  then show ?thesis using assms(1,2) by simp
next
  case False
  then have "last sg < j" by (rule assms(3))
  then show ?thesis using False assms(1,2) by (simp add: max_def)
qed

lemma depth_bound_candidate:
  assumes "candidate T g matched sg j"
  shows "depth_bound T matched (sg @ [j]) < depth_bound T matched sg"
proof -
  have r: "0 \<le> j" "j < int (length matched)" using candidate_range [OF assms] by auto
  show ?thesis
  proof (cases "pattern_match_type T")
    case SORTED_WRT_EXECUTION_ORDER
    then have "sg \<noteq> [] \<Longrightarrow> last sg < j" using assms by (simp add: candidate_def)
    from depth_bound_sorted_snoc [OF r this] show ?thesis
      using SORTED_WRT_EXECUTION_ORDER by (simp add: depth_bound_def)
  next
    case CONNECTED_SUBGRAPH
    then have "j \<notin> set sg" using assms by (simp add: candidate_def)
    from card_Diff_snoc [OF r this] show ?thesis
      using CONNECTED_SUBGRAPH by (simp add: depth_bound_def)
  next
    case GENERAL
    then have "j \<notin> set sg" using assms by (simp add: candidate_def)
    from card_Diff_snoc [OF r this] show ?thesis
      using GENERAL by (simp add: depth_bound_def)
  next
    case UNKNOWN_TYPE
    then show ?thesis using assms by (simp add: candidate_def)
  qed
qed

lemma PatternMatchHelper_fuel_sim:
  assumes "depth_bound T matched sg < n" "depth_bound T matched sg < m"
  shows "sim_result (\<lambda>e1 e2. e1 = e2 \<and> e1 \<noteq> OutOfFuel) sg (=)
           (PatternMatchHelper_fuel n T g matched sg best)
           (PatternMatchHelper_fuel m T g matched sg best)"
  using assms
proof (induction n arbitrary: m sg best)
  case 0
  then show ?case by simp
next
  case (Suc n)
  then obtain m' where m: "m = Suc m'" by (cases m) auto
  have "sim_result (\<lambda>e1 e2. e1 = e2 \<and> e1 \<noteq> OutOfFuel) sg (=)
          (expand (PatternMatchHelper_fuel n T g matched) T g matched sg (update_best T g sg best))
          (expand (PatternMatchHelper_fuel m' T g matched) T g matched sg (update_best T g sg best))"
  proof (rule expand_sim)
    fix j and b1 b2 :: "int list"
    assume c: "candidate T g matched sg j" and "b1 = b2"
    have "depth_bound T matched (sg @ [j]) < n" "depth_bound T matched (sg @ [j]) < m'"
      using depth_bound_candidate [OF c] Suc.prems m by auto
    then show "sim_result (\<lambda>e1 e2. e1 = e2 \<and> e1 \<noteq> OutOfFuel) (sg @ [j]) (=)
                 (PatternMatchHelper_fuel n T g matched (sg @ [j]) b1)
                 (PatternMatchHelper_fuel m' T g matched (sg @ [j]) b2)"
      using \<open>b1 = b2\<close> by (simp add: Suc.IH)
  qed simp_all
  then show ?case by (simp add: m PatternMatchHelper_body_def)
qed

lemma PatternMatchHelper_fuel_stable:
  assumes "depth_bound T matched sg < n" "depth_bound T matched sg < m"
  shows "PatternMatchHelper_fuel n T g matched sg best = PatternMatchHelper_fuel m T g matched sg best"
  by (rule sim_result_eq [OF PatternMatchHelper_fuel_sim [OF assms]]) simp

lemma PatternMatchHelper_fuel_enough:
  assumes "depth_bound T matched sg < n"
  shows "PatternMatchHelper_fuel n T g matched sg best \<noteq> Inl OutOfFuel"
  using PatternMatchHelper_fuel_sim [OF assms assms, of g best]
  by (cases rule: sim_resultE) auto

lemma PatternMatchHelper_eq_fuel:
  assumes "depth_bound T matched sg < n"
  shows "PatternMatchHelper T g matched sg best = PatternMatchHelper_fuel n T g matched sg best"
  unfolding PatternMatchHelper_def
  using depth_bound_le [of T matched sg] assms by (intro PatternMatchHelper_fuel_stable) auto

lemma PatternMatchHelper_no_OutOfFuel:
  "PatternMatchHelper T g matched sg best \<noteq> Inl OutOfFuel"
  unfolding PatternMatchHelper_def
  using depth_bound_le [of T matched sg] by (intro PatternMatchHelper_fuel_enough) auto

lemma PatternMatchHelper_unfold:
  "PatternMatchHelper T g matched sg best =
     PatternMatchHelper_body (PatternMatchHelper T g matched) T g matched sg best"
proof -
  let ?N = "length matched"
  have "sim_result (=) sg (=)
          (expand (PatternMatchHelper_fuel ?N T g matched) T g matched sg (update_best T g sg best))
          (expand (PatternMatchHelper T g matched) T g matched sg (update_best T g sg best))"
  proof (rule expand_sim)
    fix j and b1 b2 :: "int list"
    assume c: "candidate T g matched sg j" and "b1 = b2"
    have d: "depth_bound T matched (sg @ [j]) < ?N"
      using depth_bound_candidate [OF c] depth_bound_le [of T matched sg] by simp
    have "PatternMatchHelper T g matched (sg @ [j]) b2 =
            PatternMatchHelper_fuel ?N T g matched (sg @ [j]) b2"
      by (rule PatternMatchHelper_eq_fuel [OF d])
    moreover have "sim_result (=) (sg @ [j]) (=)
            (PatternMatchHelper_fuel ?N T g matched (sg @ [j]) b2)
            (PatternMatchHelper_fuel ?N T g matched (sg @ [j]) b2)"
      by (rule sim_result_mono [OF PatternMatchHelper_fuel_sim [OF d d]]) simp_all
    ultimately show "sim_result (=) (sg @ [j]) (=)
                 (PatternMatchHelper_fuel ?N T g matched (sg @ [j]) b1)
                 (PatternMatchHelper T g matched (sg @ [j]) b2)"
      using \<open>b1 = b2\<close> by simp
  qed simp_all
  then have "expand (PatternMatchHelper_fuel ?N T g matched) T g matched sg (update_best T g sg best)
           = expand (PatternMatchHelper T g matched) T g matched sg (update_best T g sg best)"
    by (rule sim_result_eq) simp
  then show ?thesis by (simp add: PatternMatchHelper_def PatternMatchHelper_body_def)
qed

section \<open>What the expansion leaves behind\<close>

lemma improved_refl: "improved T g matched sg best best"
  by (simp add: improved_def)

lemma improved_length: "improved T g matched sg best best' \<Longrightarrow> length best \<le> length best'"
  by (auto simp: improved_def)

lemma improved_update_best: "improved T g matched sg best (update_best T g sg best)"
  by (simp add: improved_def update_best_def)

lemma improved_step:
  assumes c: "candidate T g matched sg j"
    and 1: "improved T g matched sg best b"
    and 2: "improved T g matched (sg @ [j]) b c"
  shows "improved T g matched sg best c"
proof (cases "c = b")
  case True
  with 1 show ?thesis by simp
next
  case False
  with 2 have len: "length b < length c" and v: "ValidatorRule T g c"
    and t: "take (Suc (length sg)) c = sg @ [j]"
    and gr: "grown T g matched (sg @ [j]) (drop (Suc (length sg)) c)"
    by (auto simp: improved_def)
  from t have "take (length sg) (take (Suc (length sg)) c) = sg" by simp
  then have t': "take (length sg) c = sg" by (simp add: min_def)
  have "c = take (Suc (length sg)) c @ drop (Suc (length sg)) c" by simp
  then have "c = sg @ j # drop (Suc (length sg)) c" using t by simp
  then have "drop (length sg) c = drop (length sg) (sg @ j # drop (Suc (length sg)) c)" by simp
  then have d: "drop (length sg) c = j # drop (Suc (length sg)) c" by simp
  have "grown T g matched sg (drop (length sg) c)"
    unfolding d using c gr by simp
  moreover have "length best < length c" using improved_length [OF 1] len by simp
  ultimately show ?thesis using v t' by (simp add: improved_def)
qed

lemma PatternMatchHelper_fuel_improved:
  "sim_result (\<lambda>e1 e2. True) sg (\<lambda>b1 b2. improved T g matched sg best b1)
     (PatternMatchHelper_fuel n T g matched sg best)
     (PatternMatchHelper_fuel n T g matched sg best)"
proof (induction n arbitrary: sg best)
  case 0
  then show ?case by (simp add: sim_result_def)
next
  case (Suc n)
  have "sim_result (\<lambda>e1 e2. True) sg (\<lambda>b1 b2. b1 = b2 \<and> improved T g matched sg best b1)
          (expand (PatternMatchHelper_fuel n T g matched) T g matched sg (update_best T g sg best))
          (expand (PatternMatchHelper_fuel n T g matched) T g matched sg (update_best T g sg best))"
  proof (rule expand_sim)
    fix j and b1 b2 :: "int list"
    assume c: "candidate T g matched sg j" and "b1 = b2 \<and> improved T g matched sg best b1"
    then have eq: "b2 = b1" and i: "improved T g matched sg best b1" by blast+
    have "sim_result (\<lambda>e1 e2. True) (sg @ [j])
            (\<lambda>c1 c2. c1 = c2 \<and> improved T g matched sg best c1)
            (PatternMatchHelper_fuel n T g matched (sg @ [j]) b1)
            (PatternMatchHelper_fuel n T g matched (sg @ [j]) b1)"
      using Suc.IH [of "sg @ [j]" b1]
      by (cases rule: sim_resultE) (auto simp: sim_result_def intro: improved_step [OF c i])
    then show "sim_result (\<lambda>e1 e2. True) (sg @ [j])
            (\<lambda>c1 c2. c1 = c2 \<and> improved T g matched sg best c1)
            (PatternMatchHelper_fuel n T g matched (sg @ [j]) b1)
            (PatternMatchHelper_fuel n T g matched (sg @ [j]) b2)"
      by (simp add: eq)
  qed (simp_all add: improved_update_best)
  then have "sim_result (\<lambda>e1 e2. True) sg (\<lambda>b1 b2. improved T g matched sg best b1)
          (expand (PatternMatchHelper_fuel n T g matched) T g matched sg (update_best T g sg best))
          (expand (PatternMatchHelper_fuel n T g matched) T g matched sg (update_best T g sg best))"
    by (rule sim_result_mono) simp_all
  then show ?case by (simp add: PatternMatchHelper_body_def)
qed

lemma PatternMatchHelper_improved:
  assumes "PatternMatchHelper T g matched sg best = Inr (sg', best')"
  shows "sg' = sg \<and> improved T g matched sg best best'"
  using PatternMatchHelper_fuel_improved [of sg T g matched best "Suc (length matched)"] assms
  unfolding PatternMatchHelper_def [symmetric]
  by (cases rule: sim_resultE) auto

lemma connected_loop_size:
  "connected_loop rec T g matched sb i sg best = Inr (sg', best') \<Longrightarrow>
   sg' = sg \<or> length sg' = sb"
proof (induction rec T g matched sb i sg best rule: connected_loop.induct)
  case (1 rec T g matched sb i sg best)
  show ?case
  proof (cases "i < length sg")
    case False
    then show ?thesis using "1.prems" by (simp add: connected_loop.simps [of _ _ _ _ _ i])
  next
    case True
    from "1.prems" True obtain nd sg1 best1 sg2 best2 where
      n: "node g (sg ! i) = Inr nd"
      and c: "TryNeighbors rec T g (children nd) matched sg best = Inr (sg1, best1)"
      and s1: "sb = length sg1"
      and p: "TryNeighbors rec T g (parents nd) matched sg1 best1 = Inr (sg2, best2)"
      and s2: "sb = length sg2"
      and r: "connected_loop rec T g matched sb (Suc i) sg2 best2 = Inr (sg', best')"
      by (subst (asm) connected_loop.simps) (auto split: sum.splits prod.splits if_splits)
    have "sg' = sg2 \<or> length sg' = sb"
      using "1.IH" [OF True n c refl _ n p refl _ r] s1 s2 by simp
    then show ?thesis using s2 by auto
  qed
qed

lemma grown_unmatched:
  "grown T g matched sg ext \<Longrightarrow> x \<in> set ext \<Longrightarrow> vector_at matched x = Inr False"
  by (induction ext arbitrary: sg) (auto simp: candidate_def)

lemma grown_PatternRule:
  "grown T g matched sg ext \<Longrightarrow> k < length ext \<Longrightarrow> PatternRule T g (sg @ take k ext) (ext ! k)"
proof (induction ext arbitrary: sg k)
  case Nil
  then show ?case by simp
next
  case (Cons j ext)
  show ?case
  proof (cases k)
    case 0
    then show ?thesis using Cons.prems by (simp add: candidate_def)
  next
    case (Suc k')
    then show ?thesis using Cons.IH [of "sg @ [j]" k'] Cons.prems by simp
  qed
qed

lemma grown_distinct:
  assumes "pattern_match_type T = CONNECTED_SUBGRAPH \<or> pattern_match_type T = GENERAL"
  shows "grown T g matched sg ext \<Longrightarrow> distinct sg \<Longrightarrow> distinct (sg @ ext)"
proof (induction ext arbitrary: sg)
  case Nil
  then show ?case by simp
next
  case (Cons j ext)
  then have "j \<notin> set sg" using assms by (auto simp: candidate_def)
  then have "distinct ((sg @ [j]) @ ext)" using Cons by (intro Cons.IH) auto
  then show ?case by simp
qed

lemma sorted_wrt_le_last:
  "sorted_wrt (<) (sg :: int list) \<Longrightarrow> x \<in> set sg \<Longrightarrow> x \<le> last sg"
proof (induction sg)
  case Nil
  then show ?case by simp
next
  case (Cons a sg)
  show ?case
  proof (cases "sg = []")
    case True
    then show ?thesis using Cons.prems by simp
  next
    case False
    then have "last sg \<in> set sg" by simp
    then have "a < last sg" using Cons.prems(1) by simp
    moreover have "x \<in> set sg \<Longrightarrow> x \<le> last sg" using Cons by simp
    ultimately show ?thesis using Cons.prems(2) False by auto
  qed
qed

lemma grown_sorted:
  assumes "pattern_match_type T = SORTED_WRT_EXECUTION_ORDER"
  shows "grown T g matched sg ext \<Longrightarrow> sorted_wrt (<) sg \<Longrightarrow> sorted_wrt (<) (sg @ ext)"
proof (induction ext arbitrary: sg)
  case Nil
  then show ?case by simp
next
  case (Cons j ext)
  then have l: "sg \<noteq> [] \<Longrightarrow> last sg < j" using assms by (auto simp: candidate_def)
  have "sorted_wrt (<) (sg @ [j])"
  proof (cases "sg = []")
    case True
    then show ?thesis by simp
  next
    case False
    have "x \<le> last sg" if "x \<in> set sg" for x
      using Cons.prems(2) that by (rule sorted_wrt_le_last)
    then show ?thesis using Cons.prems(2) l [OF False] by (force simp: sorted_wrt_append)
  qed
  then have "sorted_wrt (<) ((sg @ [j]) @ ext)" using Cons by (intro Cons.IH) auto
  then show ?case by simp
qed

lemma grown_sorted_ext:
  assumes "pattern_match_type T = SORTED_WRT_EXECUTION_ORDER"
  shows "grown T g matched sg ext \<Longrightarrow>
         sorted_wrt (<) ext \<and> (\<forall>x\<in>set ext. sg \<noteq> [] \<longrightarrow> last sg < x)"
proof (induction ext arbitrary: sg)
  case Nil
  then show ?case by simp
next
  case (Cons j ext)
  then have l: "sg \<noteq> [] \<Longrightarrow> last sg < j" using assms by (auto simp: candidate_def)
  from Cons have "sorted_wrt (<) ext \<and> (\<forall>x\<in>set ext. sg @ [j] \<noteq> [] \<longrightarrow> last (sg @ [j]) < x)"
    by (intro Cons.IH) auto
  then have s: "sorted_wrt (<) ext" and g: "\<forall>x\<in>set ext. j < x" by simp_all
  show ?case using s g l by auto
qed

lemma grown_unknown:
  assumes "pattern_match_type T = UNKNOWN_TYPE"
  shows "grown T g matched sg ext \<Longrightarrow> ext = []"
  using assms by (cases ext) (auto simp: candidate_def)

lemma grown_linked:
  assumes "pattern_match_type T = CONNECTED_SUBGRAPH"
  shows "grown T g matched sg ext \<Longrightarrow> k < length ext \<Longrightarrow>
         \<exists>i<length sg + k. ext ! k \<in> set (neighbor_keys g ((sg @ ext) ! i))"
proof (induction ext arbitrary: sg k)
  case Nil
  then show ?case by simp
next
  case (Cons j ext)
  show ?case
  proof (cases k)
    case 0
    from Cons.prems(1) assms obtain x where "x \<in> set sg" "j \<in> set (neighbor_keys g x)"
      by (auto simp: candidate_def)
    then obtain i where "i < length sg" "x = sg ! i" by (auto simp: in_set_conv_nth)
    then show ?thesis using 0 \<open>j \<in> set (neighbor_keys g x)\<close>
      by (auto simp: nth_append intro!: exI [of _ i])
  next
    case (Suc k')
    then have "\<exists>i<length (sg @ [j]) + k'. ext ! k' \<in> set (neighbor_keys g (((sg @ [j]) @ ext) ! i))"
      using Cons.prems by (intro Cons.IH) auto
    then show ?thesis using Suc by simp
  qed
qed

lemma linked_reachable:
  assumes link: "\<forall>k<length m. 0 < k \<longrightarrow> (\<exists>i<k. adjacent g (m ! i) (m ! k))"
    and k: "k < length m"
  shows "(m ! 0, m ! k) \<in> {(a, b). a \<in> set m \<and> b \<in> set m \<and> adjacent g a b}\<^sup>*"
  using k
proof (induction k rule: less_induct)
  case (less k)
  show ?case
  proof (cases "k = 0")
    case True
    then show ?thesis by simp
  next
    case False
    with link less.prems obtain i where i: "i < k" "adjacent g (m ! i) (m ! k)" by auto
    then have "(m ! 0, m ! i) \<in> {(a, b). a \<in> set m \<and> b \<in> set m \<and> adjacent g a b}\<^sup>*"
      using less.IH [of i] less.prems by simp
    moreover have "(m ! i, m ! k) \<in> {(a, b). a \<in> set m \<and> b \<in> set m \<and> adjacent g a b}"
      using i less.prems by simp
    ultimately show ?thesis by (rule rtrancl_into_rtrancl)
  qed
qed

section \<open>The buffer along the exploration order\<close>

lemma best_after_snoc:
  "best_after T g best (log @ [s]) = update_best T g s (best_after T g best log)"
  by (simp add: best_after_def)

lemma explore_fuel_sim:
  assumes "b = best_after T g best log"
  shows "sim_result (=) sg (\<lambda>b' log'. b' = best_after T g best log')
           (PatternMatchHelper_fuel n T g matched sg b)
           (explore_fuel n T g matched sg log)"
  using assms
proof (induction n arbitrary: sg b log)
  case 0
  then show ?case by (simp add: sim_result_def)
next
  case (Suc n)
  have "sim_result (=) sg (\<lambda>b' log'. b' = best_after T g best log')
          (expand (PatternMatchHelper_fuel n T g matched) T g matched sg (update_best T g sg b))
          (expand (explore_fuel n T g matched) T g matched sg (log @ [sg]))"
  proof (rule expand_sim)
    fix j b1 and b2 :: "int list list"
    assume "candidate T g matched sg j" and "b1 = best_after T g best b2"
    then show "sim_result (=) (sg @ [j]) (\<lambda>b' log'. b' = best_after T g best log')
                 (PatternMatchHelper_fuel n T g matched (sg @ [j]) b1)
                 (explore_fuel n T g matched (sg @ [j]) b2)"
      by (intro Suc.IH)
  next
    show "update_best T g sg b = best_after T g best (log @ [sg])"
      using Suc.prems by (simp add: best_after_snoc)
  qed simp_all
  then show ?case by (simp add: PatternMatchHelper_body_def)
qed

lemma PatternMatchHelper_explored:
  assumes "PatternMatchHelper T g matched sg best = Inr (sg', best')"
  shows "\<exists>log. explored T g matched sg = Inr log \<and> best' = best_after T g best log"
proof -
  have "best = best_after T g best []" by (simp add: best_after_def)
  from explore_fuel_sim [OF this, of sg "Suc (length matched)" matched]
  show ?thesis
  proof (cases rule: sim_resultE)
    case (err e1 e2)
    then show ?thesis using assms by (simp add: PatternMatchHelper_def)
  next
    case (ok b1 b2)
    then show ?thesis using assms by (simp add: PatternMatchHelper_def explored_def)
  qed
qed

lemma explore_fuel_grown:
  "sim_result (\<lambda>e1 e2. True) sg
     (\<lambda>l1 l2. l1 = l2 \<and>
        (\<forall>s\<in>set l1. s \<in> set log \<or> (\<exists>ext. s = sg @ ext \<and> grown T g matched sg ext)))
     (explore_fuel n T g matched sg log)
     (explore_fuel n T g matched sg log)"
proof (induction n arbitrary: sg log)
  case 0
  then show ?case by (simp add: sim_result_def)
next
  case (Suc n)
  let ?R = "\<lambda>l1 l2. l1 = l2 \<and>
        (\<forall>s\<in>set l1. s \<in> set log \<or> (\<exists>ext. s = sg @ ext \<and> grown T g matched sg ext))"
  have "sim_result (\<lambda>e1 e2. True) sg ?R
          (expand (explore_fuel n T g matched) T g matched sg (log @ [sg]))
          (expand (explore_fuel n T g matched) T g matched sg (log @ [sg]))"
  proof (rule expand_sim)
    fix j and l1 l2 :: "int list list"
    assume c: "candidate T g matched sg j" and r: "?R l1 l2"
    then have eq: "l2 = l1"
      and old: "\<forall>s\<in>set l1. s \<in> set log \<or> (\<exists>ext. s = sg @ ext \<and> grown T g matched sg ext)"
      by blast+
    have step: "s \<in> set log \<or> (\<exists>ext. s = sg @ ext \<and> grown T g matched sg ext)"
      if "s \<in> set l1 \<or> (\<exists>ext. s = (sg @ [j]) @ ext \<and> grown T g matched (sg @ [j]) ext)" for s
      using that
    proof
      assume "s \<in> set l1"
      with old show ?thesis by blast
    next
      assume "\<exists>ext. s = (sg @ [j]) @ ext \<and> grown T g matched (sg @ [j]) ext"
      then obtain ext where "s = sg @ (j # ext)" "grown T g matched sg (j # ext)"
        using c by auto
      then show ?thesis by blast
    qed
    have "sim_result (\<lambda>e1 e2. True) (sg @ [j]) ?R
            (explore_fuel n T g matched (sg @ [j]) l1)
            (explore_fuel n T g matched (sg @ [j]) l1)"
    proof (rule sim_result_mono [OF Suc.IH [of "sg @ [j]" l1]])
      fix b1 b2 :: "int list list"
      assume "b1 = b2 \<and> (\<forall>s\<in>set b1. s \<in> set l1 \<or>
                (\<exists>ext. s = (sg @ [j]) @ ext \<and> grown T g matched (sg @ [j]) ext))"
      then show "?R b1 b2" using step by blast
    qed simp
    then show "sim_result (\<lambda>e1 e2. True) (sg @ [j]) ?R
            (explore_fuel n T g matched (sg @ [j]) l1)
            (explore_fuel n T g matched (sg @ [j]) l2)"
      by (simp add: eq)
  next
    have "grown T g matched sg []" by simp
    then have "\<exists>ext. sg = sg @ ext \<and> grown T g matched sg ext" by (intro exI [of _ "[]"]) simp
    then show "?R (log @ [sg]) (log @ [sg])" by auto
  qed simp_all
  then show ?case by simp
qed

lemma explored_grown:
  assumes "explored T g matched sg = Inr log"
  shows "\<forall>s\<in>set log. \<exists>ext. s = sg @ ext \<and> grown T g matched sg ext"
  using explore_fuel_grown [of sg "[]" T g matched "Suc (length matched)"] assms
  unfolding explored_def
  by (cases rule: sim_resultE) auto

lemma best_after_first_maximal:
  "best_after T g best log = best \<and>
     (\<forall>s\<in>set log. ValidatorRule T g s \<longrightarrow> length s \<le> length best) \<or>
   (\<exists>i<length log. best_after T g best log = log ! i \<and> ValidatorRule T g (log ! i) \<and>
      length best < length (log ! i) \<and>
      (\<forall>j<length log. ValidatorRule T g (log ! j) \<longrightarrow> length (log ! j) \<le> length (log ! i)) \<and>
      (\<forall>j<i. ValidatorRule T g (log ! j) \<longrightarrow> length (log ! j) < length (log ! i)))"
proof (induction log rule: rev_induct)
  case Nil
  then show ?case by (simp add: best_after_def)
next
  case (snoc s log)
  let ?b = "best_after T g best log"
  show ?case
  proof (cases "ValidatorRule T g s \<and> length ?b < length s")
    case True
    then have new: "best_after T g best (log @ [s]) = s"
      by (simp add: best_after_snoc update_best_def)
    have le: "length best \<le> length ?b" using snoc.IH by auto
    have old: "length (log ! j) \<le> length ?b" if "j < length log" "ValidatorRule T g (log ! j)" for j
      using snoc.IH
    proof (elim disjE conjE exE)
      assume "?b = best" "\<forall>s\<in>set log. ValidatorRule T g s \<longrightarrow> length s \<le> length best"
      then show ?thesis using that nth_mem [OF that(1)] by auto
    next
      fix i
      assume "?b = log ! i"
        "\<forall>j<length log. ValidatorRule T g (log ! j) \<longrightarrow> length (log ! j) \<le> length (log ! i)"
      then show ?thesis using that by auto
    qed
    have "length log < length (log @ [s])" by simp
    moreover have "best_after T g best (log @ [s]) = (log @ [s]) ! length log" using new by simp
    moreover have "ValidatorRule T g ((log @ [s]) ! length log)" using True by simp
    moreover have "length best < length ((log @ [s]) ! length log)" using True le by simp
    moreover have "\<forall>j<length (log @ [s]). ValidatorRule T g ((log @ [s]) ! j) \<longrightarrow>
                     length ((log @ [s]) ! j) \<le> length ((log @ [s]) ! length log)"
    proof (intro allI impI)
      fix j assume "j < length (log @ [s])" "ValidatorRule T g ((log @ [s]) ! j)"
      then show "length ((log @ [s]) ! j) \<le> length ((log @ [s]) ! length log)"
        using old [of j] True by (cases "j < length log") (auto simp: nth_append)
    qed
    moreover have "\<forall>j<length log. ValidatorRule T g ((log @ [s]) ! j) \<longrightarrow>
                     length ((log @ [s]) ! j) < length ((log @ [s]) ! length log)"
    proof (intro allI impI)
      fix j assume "j < length log" "ValidatorRule T g ((log @ [s]) ! j)"
      then show "length ((log @ [s]) ! j) < length ((log @ [s]) ! length log)"
        using old [of j] True by (auto simp: nth_append)
    qed
    ultimately show ?thesis by blast
  next
    case False
    then have same: "best_after T g best (log @ [s]) = ?b"
      by (auto simp add: best_after_snoc update_best_def)
    from snoc.IH show ?thesis
    proof (elim disjE conjE exE)
      assume a: "?b = best" "\<forall>s\<in>set log. ValidatorRule T g s \<longrightarrow> length s \<le> length best"
      then show ?thesis using same False by auto
    next
      fix i
      assume i: "i < length log" "?b = log ! i" "ValidatorRule T g (log ! i)"
        "length best < length (log ! i)"
        "\<forall>j<length log. ValidatorRule T g (log ! j) \<longrightarrow> length (log ! j) \<le> length (log ! i)"
        "\<forall>j<i. ValidatorRule T g (log ! j) \<longrightarrow> length (log ! j) < length (log ! i)"
      have "i < length (log @ [s])" using i(1) by simp
      moreover have "best_after T g best (log @ [s]) = (log @ [s]) ! i"
        using same i(1,2) by (simp add: nth_append)
      moreover have "ValidatorRule T g ((log @ [s]) ! i)" using i(1,3) by (simp add: nth_append)
      moreover have "length best < length ((log @ [s]) ! i)" using i(1,4) by (simp add: nth_append)
      moreover have "\<forall>j<length (log @ [s]). ValidatorRule T g ((log @ [s]) ! j) \<longrightarrow>
                       length ((log @ [s]) ! j) \<le> length ((log @ [s]) ! i)"
        using i(1,2,5) False by (auto simp: nth_append less_Suc_eq)
      moreover have "\<forall>j<i. ValidatorRule T g ((log @ [s]) ! j) \<longrightarrow>
                       length ((log @ [s]) ! j) < length ((log @ [s]) ! i)"
        using i(1,6) by (auto simp: nth_append)
      ultimately show ?thesis by blast
    qed
  qed
qed

section \<open>The loop of the matcher\<close>

lemma start_round:
  assumes "try_candidate (PatternMatchHelper T g matched) T g matched idx [] [] = Inr (sg, best)"
  shows "sg = [] \<and>
         (best = [] \<or>
          (vector_at matched idx = Inr False \<and> PatternRule T g [] idx \<and> ValidatorRule T g best \<and>
           (\<exists>ext. best = idx # ext \<and> grown T g matched [idx] ext)))"
proof (cases "vector_at matched idx = Inr False \<and> PatternRule T g [] idx")
  case False
  then show ?thesis using assms
    by (auto simp: try_candidate_def split: sum.splits if_splits)
next
  case True
  then obtain sg' where h: "PatternMatchHelper T g matched [idx] [] = Inr (sg', best)"
    and sg: "sg = butlast sg'"
    using assms by (auto simp: try_candidate_def split: sum.splits)
  from PatternMatchHelper_improved [OF h]
  have sg': "sg' = [idx]" and i: "improved T g matched [idx] [] best" by simp_all
  show ?thesis
  proof (cases "best = []")
    case True
    then show ?thesis using sg sg' by simp
  next
    case False
    with i have v: "ValidatorRule T g best" and t: "take 1 best = [idx]"
      and gr: "grown T g matched [idx] (drop 1 best)"
      by (auto simp: improved_def)
    have "best = idx # drop 1 best" using t False by (cases best) auto
    moreover have "sg = []" using sg sg' by simp
    ultimately show ?thesis using True v gr by blast
  qed
qed

lemma found_unmatched:
  assumes "vector_at matched idx = Inr False" "grown T g matched [idx] ext"
    and "x \<in> set (idx # ext)"
  shows "vector_at matched x = Inr False"
  using assms grown_unmatched [OF assms(2)] by auto

lemma found_match_ok:
  assumes len: "length matched = length g"
    and u: "vector_at matched idx = Inr False" and p: "PatternRule T g [] idx"
    and v: "ValidatorRule T g (idx # ext)" and gr: "grown T g matched [idx] ext"
  shows "match_ok T g (idx # ext)"
proof -
  have range: "0 \<le> x \<and> x < graph_size g" if "x \<in> set (idx # ext)" for x
    using found_unmatched [OF u gr that] len by (auto simp: graph_size_def dest: vector_at_Inr)
  have srt: "sorted_wrt (<) (idx # ext)" if "pattern_match_type T = SORTED_WRT_EXECUTION_ORDER"
    using grown_sorted [OF that gr] by simp
  have dist: "distinct (idx # ext)"
  proof (cases "pattern_match_type T")
    case CONNECTED_SUBGRAPH
    then show ?thesis using grown_distinct [OF _ gr] by simp
  next
    case GENERAL
    then show ?thesis using grown_distinct [OF _ gr] by simp
  next
    case SORTED_WRT_EXECUTION_ORDER
    then show ?thesis using srt strict_sorted_iff [of "idx # ext"] by blast
  next
    case UNKNOWN_TYPE
    then show ?thesis using grown_unknown [OF _ gr] by simp
  qed
  have acc: "PatternRule T g (take k (idx # ext)) ((idx # ext) ! k)" if "k < length (idx # ext)" for k
  proof (cases k)
    case 0
    then show ?thesis using p by simp
  next
    case (Suc k')
    then show ?thesis using grown_PatternRule [OF gr, of k'] that by simp
  qed
  have link: "\<exists>i<k. (idx # ext) ! k \<in> set (neighbor_keys g ((idx # ext) ! i))"
    if "pattern_match_type T = CONNECTED_SUBGRAPH" "k < length (idx # ext)" "0 < k" for k
  proof -
    from that obtain k' where k: "k = Suc k'" by (cases k) auto
    then show ?thesis using grown_linked [OF that(1) gr, of k'] that(2) by simp
  qed
  show ?thesis
    unfolding match_ok_def using range dist acc v srt link by blast
qed

lemma length_mark_matched: "length (mark_matched matched best) = length matched"
proof -
  have "length (fold (\<lambda>x m. m[nat x := True]) best m) = length m" for m :: "bool list"
    by (induction best arbitrary: m) auto
  then show ?thesis by (simp add: mark_matched_def)
qed

lemma nth_mark_matched:
  assumes "\<forall>x\<in>set best. 0 \<le> x" "i < length matched"
  shows "mark_matched matched best ! i = (matched ! i \<or> int i \<in> set best)"
proof -
  have "(\<forall>x\<in>set best. 0 \<le> x) \<Longrightarrow> i < length m \<Longrightarrow>
        fold (\<lambda>x m. m[nat x := True]) best m ! i = (m ! i \<or> int i \<in> set best)" for m :: "bool list"
  proof (induction best arbitrary: m)
    case Nil
    then show ?case by simp
  next
    case (Cons x best)
    then have "fold (\<lambda>x m. m[nat x := True]) best (m[nat x := True]) ! i
               = (m[nat x := True] ! i \<or> int i \<in> set best)"
      by (intro Cons.IH) auto
    moreover have "m[nat x := True] ! i = (m ! i \<or> int i = x)"
    proof (cases "nat x = i")
      case True
      then show ?thesis using Cons.prems by auto
    next
      case False
      then have "int i \<noteq> x" by auto
      then show ?thesis using False by simp
    qed
    ultimately show ?case by auto
  qed
  then show ?thesis using assms by (simp add: mark_matched_def)
qed

lemma vector_at_mark_matched:
  assumes "\<forall>x\<in>set best. 0 \<le> x"
  shows "vector_at (mark_matched matched best) x =
         (case vector_at matched x of Inl e \<Rightarrow> Inl e | Inr m \<Rightarrow> Inr (m \<or> x \<in> set best))"
  using nth_mark_matched [OF assms, of "nat x" matched]
  by (auto simp: vector_at_def length_mark_matched)

lemma mark_matched_marks:
  assumes "\<forall>x\<in>set best. vector_at matched x = Inr False"
  shows "\<forall>x\<in>set best. vector_at (mark_matched matched best) x = Inr True"
proof -
  have "\<forall>x\<in>set best. 0 \<le> x" using assms by (auto dest: vector_at_Inr)
  from vector_at_mark_matched [OF this] assms show ?thesis by simp
qed

lemma try_candidate_marked:
  "vector_at matched j = Inr True \<Longrightarrow> try_candidate rec T g matched j sg b = Inr (sg, b)"
  by (simp add: try_candidate_def)

lemma try_candidate_Inl:
  assumes "try_candidate rec T g matched j sg best = Inl e"
  shows "e = OutOfRange \<or> rec (sg @ [j]) best = Inl e"
  using assms
  by (auto simp: try_candidate_def split: sum.splits if_splits dest: vector_at_Inl)

declare PatternMatch_loop.simps [simp del]

lemma registry_ok_skip:
  "registry_ok T g idx matched matches \<Longrightarrow> registry_ok T g (idx + 1) matched matches"
  by (auto simp: registry_ok_def)

lemma registry_ok_record:
  assumes ok: "registry_ok T g idx matched matches"
    and u: "vector_at matched idx = Inr False" and p: "PatternRule T g [] idx"
    and v: "ValidatorRule T g (idx # ext)" and gr: "grown T g matched [idx] ext"
  shows "registry_ok T g (idx + 1) (mark_matched matched (idx # ext)) (matches @ [idx # ext])"
proof -
  let ?best = "idx # ext"
  let ?matched' = "mark_matched matched ?best"
  have len: "length matched = length g" and idx: "0 \<le> idx"
    and old: "\<And>m. m \<in> set matches \<Longrightarrow>
                match_ok T g m \<and> hd m < idx \<and> (\<forall>x\<in>set m. vector_at matched x = Inr True)"
    and disj: "sorted_wrt (\<lambda>a b. set a \<inter> set b = {}) matches"
    and heads: "sorted_wrt (<) (map hd matches)"
    using ok by (auto simp: registry_ok_def)
  have un: "vector_at matched x = Inr False" if "x \<in> set ?best" for x
    using found_unmatched [OF u gr that] .
  then have nonneg: "\<forall>x\<in>set ?best. 0 \<le> x" by (auto dest: vector_at_Inr)
  have new_ok: "match_ok T g ?best" by (rule found_match_ok [OF len u p v gr])
  have new_marked: "vector_at ?matched' x = Inr True" if "x \<in> set ?best" for x
    using un [OF that] that by (simp add: vector_at_mark_matched [OF nonneg])
  have old_marked: "vector_at ?matched' x = Inr True" if "m \<in> set matches" "x \<in> set m" for m x
    using old [OF that(1)] that(2) by (simp add: vector_at_mark_matched [OF nonneg])
  have new_disj: "set m \<inter> set ?best = {}" if "m \<in> set matches" for m
  proof -
    have "x \<notin> set ?best" if "x \<in> set m" for x
    proof
      assume "x \<in> set ?best"
      then have "vector_at matched x = Inr False" by (rule un)
      moreover have "vector_at matched x = Inr True" using old [OF \<open>m \<in> set matches\<close>] that by blast
      ultimately show False by simp
    qed
    then show ?thesis by blast
  qed
  have "length ?matched' = length g" using len by (simp add: length_mark_matched)
  moreover have "0 \<le> idx + 1" using idx by simp
  moreover have "\<forall>m\<in>set (matches @ [?best]). match_ok T g m \<and> hd m < idx + 1 \<and>
                    (\<forall>x\<in>set m. vector_at ?matched' x = Inr True)"
  proof
    fix m assume "m \<in> set (matches @ [?best])"
    then consider "m \<in> set matches" | "m = ?best" by auto
    then show "match_ok T g m \<and> hd m < idx + 1 \<and> (\<forall>x\<in>set m. vector_at ?matched' x = Inr True)"
    proof cases
      case 1
      then show ?thesis using old [OF 1] old_marked [OF 1] by auto
    next
      case 2
      then show ?thesis using new_ok new_marked by auto
    qed
  qed
  moreover have "sorted_wrt (\<lambda>a b. set a \<inter> set b = {}) (matches @ [?best])"
    using disj new_disj by (simp add: sorted_wrt_append)
  moreover have "sorted_wrt (<) (map hd (matches @ [?best]))"
    using heads old by (auto simp: sorted_wrt_append)
  ultimately show ?thesis unfolding registry_ok_def by blast
qed

lemma PatternMatch_loop_registry_ok:
  "PatternMatch_loop T g idx matched matches = Inr ms \<Longrightarrow> registry_ok T g idx matched matches \<Longrightarrow>
   \<exists>idx' matched'. registry_ok T g idx' matched' ms"
proof (induction T g idx matched matches rule: PatternMatch_loop.induct)
  case (1 T g idx matched matches)
  show ?case
  proof (cases "idx < graph_size g")
    case False
    then have "ms = matches" using "1.prems"(1) by (simp add: PatternMatch_loop.simps [of _ _ idx])
    then show ?thesis using "1.prems"(2) by blast
  next
    case True
    then obtain sg best where
      r: "try_candidate (PatternMatchHelper T g matched) T g matched idx [] [] = Inr (sg, best)"
      using "1.prems"(1)
      by (cases "try_candidate (PatternMatchHelper T g matched) T g matched idx [] []")
         (auto simp: PatternMatch_loop.simps [of _ _ idx])
    show ?thesis
    proof (cases "best = []")
      case e: True
      then have "PatternMatch_loop T g (idx + 1) matched matches = Inr ms"
        using "1.prems"(1) True r by (simp add: PatternMatch_loop.simps [of _ _ idx])
      then show ?thesis
        using "1.IH"(2) [OF True r refl] e registry_ok_skip [OF "1.prems"(2)] by simp
    next
      case ne: False
      then have l: "PatternMatch_loop T g (idx + 1) (mark_matched matched best) (matches @ [best]) = Inr ms"
        using "1.prems"(1) True r by (simp add: PatternMatch_loop.simps [of _ _ idx])
      from start_round [OF r] ne obtain ext where
        "vector_at matched idx = Inr False" "PatternRule T g [] idx" "ValidatorRule T g best"
        "best = idx # ext" "grown T g matched [idx] ext" by blast
      then have "registry_ok T g (idx + 1) (mark_matched matched best) (matches @ [best])"
        using registry_ok_record [OF "1.prems"(2)] by simp
      then show ?thesis using "1.IH"(1) [OF True r refl] ne l by simp
    qed
  qed
qed

lemma registry_ok_init: "registry_ok T g 0 (replicate (length g) False) []"
  by (simp add: registry_ok_def)

lemma PatternMatch_registry_ok:
  assumes "PatternMatch T g = Inr ms"
  shows "\<exists>idx matched. registry_ok T g idx matched ms"
  using PatternMatch_loop_registry_ok [OF assms [unfolded PatternMatch_def] registry_ok_init] .

lemma PatternMatch_loop_no_OutOfFuel:
  "PatternMatch_loop T g idx matched matches \<noteq> Inl OutOfFuel"
proof (induction T g idx matched matches rule: PatternMatch_loop.induct)
  case (1 T g idx matched matches)
  show ?case
  proof (cases "idx < graph_size g")
    case False
    then show ?thesis by (simp add: PatternMatch_loop.simps [of _ _ idx])
  next
    case True
    show ?thesis
    proof (cases "try_candidate (PatternMatchHelper T g matched) T g matched idx [] []")
      case (Inl e)
      from try_candidate_Inl [OF Inl] have "e \<noteq> OutOfFuel"
        using PatternMatchHelper_no_OutOfFuel [of T g matched "[] @ [idx]" "[]"] by auto
      then show ?thesis using True Inl by (simp add: PatternMatch_loop.simps [of _ _ idx])
    next
      case (Inr r)
      obtain sg best where r: "r = (sg, best)" by (cases r)
      show ?thesis
      proof (cases "0 < length best")
        case b: True
        then show ?thesis
          using "1.IH"(1) [OF True Inr r [symmetric] b] True Inr r
          by (simp add: PatternMatch_loop.simps [of _ _ idx])
      next
        case b: False
        then show ?thesis
          using "1.IH"(2) [OF True Inr r [symmetric] b] True Inr r
          by (simp add: PatternMatch_loop.simps [of _ _ idx])
      qed
    qed
  qed
qed

lemma PatternMatch_no_OutOfFuel: "PatternMatch T g \<noteq> Inl OutOfFuel"
  by (simp add: PatternMatch_def PatternMatch_loop_no_OutOfFuel)

section \<open>The matcher returns on well-formed graphs\<close>

lemma try_candidate_returns:
  assumes "0 \<le> j" "j < int (length matched)"
    and "vector_at matched j = Inr False \<Longrightarrow> PatternRule T g sg j \<Longrightarrow>
           \<exists>b'. rec (sg @ [j]) best = Inr (sg @ [j], b')"
  shows "\<exists>b'. try_candidate rec T g matched j sg best = Inr (sg, b')"
proof -
  obtain m where m: "vector_at matched j = Inr m"
    using assms(1,2) by (simp add: vector_at_def)
  show ?thesis
  proof (cases "\<not> m \<and> PatternRule T g sg j")
    case True
    with m assms(3) obtain b' where "rec (sg @ [j]) best = Inr (sg @ [j], b')" by auto
    then show ?thesis using m True by (simp add: try_candidate_def)
  next
    case False
    then show ?thesis using m by (auto simp: try_candidate_def)
  qed
qed

lemma TryNeighbors_returns:
  assumes "\<forall>j\<in>fst ` set neighbors. 0 \<le> j \<and> j < int (length matched)"
    and "\<And>j b. j \<in> fst ` set neighbors \<Longrightarrow> j \<notin> set sg \<Longrightarrow> vector_at matched j = Inr False \<Longrightarrow>
           PatternRule T g sg j \<Longrightarrow> \<exists>b'. rec (sg @ [j]) b = Inr (sg @ [j], b')"
  shows "\<exists>b'. TryNeighbors rec T g neighbors matched sg best = Inr (sg, b')"
  using assms
proof (induction neighbors arbitrary: best)
  case Nil
  then show ?case by simp
next
  case (Cons edge neighbors)
  have tail: "\<exists>b'. TryNeighbors rec T g neighbors matched sg b = Inr (sg, b')" for b
    using Cons.prems by (intro Cons.IH) auto
  show ?case
  proof (cases "fst edge \<in> set sg")
    case True
    then show ?thesis using tail [of best] by simp
  next
    case False
    have "\<exists>b'. try_candidate rec T g matched (fst edge) sg best = Inr (sg, b')"
      using Cons.prems False by (intro try_candidate_returns) auto
    then obtain b1 where "try_candidate rec T g matched (fst edge) sg best = Inr (sg, b1)" by blast
    then show ?thesis using False tail [of b1] by simp
  qed
qed

lemma graph_ok_keys:
  assumes "graph_ok g" "0 \<le> x" "x < graph_size g" "j \<in> set (neighbor_keys g x)"
  shows "0 \<le> j \<and> j < graph_size g"
proof -
  have "g ! nat x \<in> set g" using assms(2,3) by (simp add: graph_size_def)
  moreover have "j \<in> set (map fst (children (g ! nat x)) @ map fst (parents (g ! nat x)))"
    using assms(4) node_Inr [OF assms(2,3)] by (simp add: neighbor_keys_def)
  ultimately show ?thesis using assms(1) unfolding graph_ok_def by blast
qed

lemma connected_loop_returns:
  assumes ok: "graph_ok g" and len: "length matched = length g"
    and range: "\<forall>x\<in>set sg. 0 \<le> x \<and> x < graph_size g"
    and rec: "\<And>j b k. k < length sg \<Longrightarrow> j \<in> set (neighbor_keys g (sg ! k)) \<Longrightarrow> j \<notin> set sg \<Longrightarrow>
           vector_at matched j = Inr False \<Longrightarrow> PatternRule T g sg j \<Longrightarrow>
           \<exists>b'. rec (sg @ [j]) b = Inr (sg @ [j], b')"
  shows "\<exists>b'. connected_loop rec T g matched (length sg) i sg best = Inr (sg, b')"
proof (induction "length sg - i" arbitrary: i best)
  case 0
  then have "\<not> i < length sg" by simp
  then show ?case by (simp add: connected_loop.simps [of _ _ _ _ _ i])
next
  case (Suc n)
  then have i: "i < length sg" by simp
  then have x: "0 \<le> sg ! i" "sg ! i < graph_size g" using range by auto
  let ?nd = "g ! nat (sg ! i)"
  have nd: "node g (sg ! i) = Inr ?nd" by (rule node_Inr [OF x])
  have keys: "set (neighbor_keys g (sg ! i)) = fst ` set (children ?nd) \<union> fst ` set (parents ?nd)"
    using nd by (simp add: neighbor_keys_def)
  have kr: "0 \<le> j \<and> j < int (length matched)" if "j \<in> set (neighbor_keys g (sg ! i))" for j
    using graph_ok_keys [OF ok x that] len by (simp add: graph_size_def)
  have "\<exists>b'. TryNeighbors rec T g (children ?nd) matched sg best = Inr (sg, b')"
    using kr keys rec [OF i] by (intro TryNeighbors_returns) auto
  then obtain b1 where c: "TryNeighbors rec T g (children ?nd) matched sg best = Inr (sg, b1)"
    by blast
  have "\<exists>b'. TryNeighbors rec T g (parents ?nd) matched sg b1 = Inr (sg, b')"
    using kr keys rec [OF i] by (intro TryNeighbors_returns) auto
  then obtain b2 where p: "TryNeighbors rec T g (parents ?nd) matched sg b1 = Inr (sg, b2)"
    by blast
  have "\<exists>b'. connected_loop rec T g matched (length sg) (Suc i) sg b2 = Inr (sg, b')"
    using Suc.hyps(2) by (intro Suc.hyps(1)) simp
  then show ?case using i nd c p by (simp add: connected_loop.simps [of _ _ _ _ _ i])
qed

lemma sorted_loop_returns:
  assumes len: "length matched = length g" and i: "0 \<le> i"
    and rec: "\<And>j b. i \<le> j \<Longrightarrow> j < graph_size g \<Longrightarrow> vector_at matched j = Inr False \<Longrightarrow>
           PatternRule T g sg j \<Longrightarrow> \<exists>b'. rec (sg @ [j]) b = Inr (sg @ [j], b')"
  shows "\<exists>b'. sorted_loop rec T g matched i sg best = Inr (sg, b')"
  using i rec
proof (induction "nat (graph_size g - i)" arbitrary: i best)
  case 0
  then have "\<not> i < graph_size g" by simp
  then show ?case by (simp add: sorted_loop.simps [of _ _ _ _ i])
next
  case (Suc n)
  then have i: "i < graph_size g" by simp
  have "\<exists>b'. try_candidate rec T g matched i sg best = Inr (sg, b')"
    using Suc.prems i len by (intro try_candidate_returns) (auto simp: graph_size_def)
  then obtain b1 where t: "try_candidate rec T g matched i sg best = Inr (sg, b1)" by blast
  have "\<exists>b'. sorted_loop rec T g matched (i + 1) sg b1 = Inr (sg, b')"
  proof (rule Suc.hyps(1))
    show "n = nat (graph_size g - (i + 1))" using Suc.hyps(2) by simp
    show "0 \<le> i + 1" using Suc.prems(1) by simp
  next
    fix j b
    assume "i + 1 \<le> j" "j < graph_size g" "vector_at matched j = Inr False" "PatternRule T g sg j"
    then show "\<exists>b'. rec (sg @ [j]) b = Inr (sg @ [j], b')"
      using Suc.prems(2) [of j b] by simp
  qed
  then show ?case using i t by (simp add: sorted_loop.simps [of _ _ _ _ i])
qed

lemma general_loop_returns:
  assumes len: "length matched = length g" and i: "0 \<le> i"
    and rec: "\<And>j b. i \<le> j \<Longrightarrow> j < graph_size g \<Longrightarrow> j \<notin> set sg \<Longrightarrow>
           vector_at matched j = Inr False \<Longrightarrow>
           PatternRule T g sg j \<Longrightarrow> \<exists>b'. rec (sg @ [j]) b = Inr (sg @ [j], b')"
  shows "\<exists>b'. general_loop rec T g matched i sg best = Inr (sg, b')"
  using i rec
proof (induction "nat (graph_size g - i)" arbitrary: i best)
  case 0
  then have "\<not> i < graph_size g" by simp
  then show ?case by (simp add: general_loop.simps [of _ _ _ _ i])
next
  case (Suc n)
  then have i: "i < graph_size g" by simp
  have next_round: "\<exists>b'. general_loop rec T g matched (i + 1) sg b = Inr (sg, b')" for b
  proof (rule Suc.hyps(1))
    show "n = nat (graph_size g - (i + 1))" using Suc.hyps(2) by simp
    show "0 \<le> i + 1" using Suc.prems(1) by simp
  next
    fix j b
    assume "i + 1 \<le> j" "j < graph_size g" "j \<notin> set sg" "vector_at matched j = Inr False"
      "PatternRule T g sg j"
    then show "\<exists>b'. rec (sg @ [j]) b = Inr (sg @ [j], b')"
      using Suc.prems(2) [of j b] by simp
  qed
  show ?case
  proof (cases "i \<in> set sg")
    case True
    then show ?thesis using i next_round [of best] by (simp add: general_loop.simps [of _ _ _ _ i])
  next
    case False
    have "\<exists>b'. try_candidate rec T g matched i sg best = Inr (sg, b')"
      using Suc.prems i len False by (intro try_candidate_returns) (auto simp: graph_size_def)
    then obtain b1 where t: "try_candidate rec T g matched i sg best = Inr (sg, b1)" by blast
    then show ?thesis using i False next_round [of b1]
      by (simp add: general_loop.simps [of _ _ _ _ i])
  qed
qed

lemma expand_returns:
  assumes ok: "graph_ok g" and len: "length matched = length g"
    and ty: "pattern_match_type T \<noteq> UNKNOWN_TYPE"
    and range: "\<forall>x\<in>set sg. 0 \<le> x \<and> x < graph_size g"
    and rec: "\<And>j b. candidate T g matched sg j \<Longrightarrow> \<exists>b'. rec (sg @ [j]) b = Inr (sg @ [j], b')"
  shows "\<exists>b'. expand rec T g matched sg best = Inr (sg, b')"
proof (cases "pattern_match_type T")
  case CONNECTED_SUBGRAPH
  have "\<exists>b'. connected_loop rec T g matched (length sg) 0 sg best = Inr (sg, b')"
  proof (rule connected_loop_returns [OF ok len range])
    fix j b k
    assume "k < length sg" "j \<in> set (neighbor_keys g (sg ! k))" "j \<notin> set sg"
      "vector_at matched j = Inr False" "PatternRule T g sg j"
    then show "\<exists>b'. rec (sg @ [j]) b = Inr (sg @ [j], b')"
      using CONNECTED_SUBGRAPH by (intro rec) (auto simp: candidate_def)
  qed
  then show ?thesis using CONNECTED_SUBGRAPH by (simp add: expand_def)
next
  case SORTED_WRT_EXECUTION_ORDER
  define start :: int where "start = (if length sg > 0 then last sg + 1 else 0)"
  have "0 \<le> start" using range by (auto simp: start_def)
  then have "\<exists>b'. sorted_loop rec T g matched start sg best = Inr (sg, b')"
  proof (rule sorted_loop_returns [OF len])
    fix j b
    assume "start \<le> j" "j < graph_size g" "vector_at matched j = Inr False" "PatternRule T g sg j"
    then show "\<exists>b'. rec (sg @ [j]) b = Inr (sg @ [j], b')"
      using SORTED_WRT_EXECUTION_ORDER by (intro rec) (auto simp: candidate_def start_def)
  qed
  then show ?thesis using SORTED_WRT_EXECUTION_ORDER by (simp add: expand_def start_def)
next
  case GENERAL
  have "\<exists>b'. general_loop rec T g matched 0 sg best = Inr (sg, b')"
  proof (rule general_loop_returns [OF len])
    fix j b
    assume "j < graph_size g" "j \<notin> set sg" "vector_at matched j = Inr False" "PatternRule T g sg j"
    then show "\<exists>b'. rec (sg @ [j]) b = Inr (sg @ [j], b')"
      using GENERAL by (intro rec) (auto simp: candidate_def)
  qed simp
  then show ?thesis using GENERAL by (simp add: expand_def)
next
  case UNKNOWN_TYPE
  then show ?thesis using ty by simp
qed

lemma PatternMatchHelper_fuel_returns:
  assumes ok: "graph_ok g" and len: "length matched = length g"
    and ty: "pattern_match_type T \<noteq> UNKNOWN_TYPE"
  shows "depth_bound T matched sg < n \<Longrightarrow> \<forall>x\<in>set sg. 0 \<le> x \<and> x < graph_size g \<Longrightarrow>
         \<exists>b'. PatternMatchHelper_fuel n T g matched sg best = Inr (sg, b')"
proof (induction n arbitrary: sg best)
  case 0
  then show ?case by simp
next
  case (Suc n)
  have "\<exists>b'. expand (PatternMatchHelper_fuel n T g matched) T g matched sg (update_best T g sg best)
              = Inr (sg, b')"
  proof (rule expand_returns [OF ok len ty Suc.prems(2)])
    fix j b
    assume c: "candidate T g matched sg j"
    have "depth_bound T matched (sg @ [j]) < n"
      using depth_bound_candidate [OF c] Suc.prems(1) by simp
    moreover have "\<forall>x\<in>set (sg @ [j]). 0 \<le> x \<and> x < graph_size g"
      using Suc.prems(2) candidate_range [OF c] len by (simp add: graph_size_def)
    ultimately show "\<exists>b'. PatternMatchHelper_fuel n T g matched (sg @ [j]) b = Inr (sg @ [j], b')"
      by (rule Suc.IH)
  qed
  then show ?case by (simp add: PatternMatchHelper_body_def)
qed

lemma PatternMatchHelper_returns:
  assumes "graph_ok g" "length matched = length g" "pattern_match_type T \<noteq> UNKNOWN_TYPE"
    and "\<forall>x\<in>set sg. 0 \<le> x \<and> x < graph_size g"
  shows "\<exists>b'. PatternMatchHelper T g matched sg best = Inr (sg, b')"
  unfolding PatternMatchHelper_def
  using depth_bound_le [of T matched sg]
  by (intro PatternMatchHelper_fuel_returns assms) auto

lemma PatternMatch_loop_returns:
  "graph_ok g \<Longrightarrow> pattern_match_type T \<noteq> UNKNOWN_TYPE \<Longrightarrow>
   length matched = length g \<Longrightarrow> 0 \<le> idx \<Longrightarrow>
   \<exists>ms. PatternMatch_loop T g idx matched matches = Inr ms"
proof (induction T g idx matched matches rule: PatternMatch_loop.induct)
  case (1 T g idx matched matches)
  show ?case
  proof (cases "idx < graph_size g")
    case False
    then show ?thesis by (simp add: PatternMatch_loop.simps [of _ _ idx])
  next
    case True
    have "\<exists>b'. try_candidate (PatternMatchHelper T g matched) T g matched idx [] [] = Inr ([], b')"
    proof (rule try_candidate_returns)
      show "0 \<le> idx" by fact
      show "idx < int (length matched)" using True "1.prems" by (simp add: graph_size_def)
      show "\<exists>b'. PatternMatchHelper T g matched ([] @ [idx]) [] = Inr ([] @ [idx], b')"
        using True "1.prems" by (intro PatternMatchHelper_returns) auto
    qed
    then obtain best
      where r: "try_candidate (PatternMatchHelper T g matched) T g matched idx [] [] = Inr ([], best)"
      by blast
    show ?thesis
    proof (cases "0 < length best")
      case b: True
      have "\<exists>ms. PatternMatch_loop T g (idx + 1) (mark_matched matched best) (matches @ [best]) = Inr ms"
        using "1.prems" by (intro "1.IH"(1) [OF True r refl b]) (auto simp: length_mark_matched)
      then show ?thesis using True r b by (simp add: PatternMatch_loop.simps [of _ _ idx])
    next
      case b: False
      have "\<exists>ms. PatternMatch_loop T g (idx + 1) matched matches = Inr ms"
        using "1.prems" by (intro "1.IH"(2) [OF True r refl b]) auto
      then show ?thesis using True r b by (simp add: PatternMatch_loop.simps [of _ _ idx])
    qed
  qed
qed

lemma PatternMatch_returns:
  assumes "graph_ok g" "pattern_match_type T \<noteq> UNKNOWN_TYPE"
  shows "\<exists>matches. PatternMatch T g = Inr matches"
  unfolding PatternMatch_def by (intro PatternMatch_loop_returns assms) auto

section \<open>The loop of the apply phase\<close>

lemma is_node_active_Inr:
  "0 \<le> idx \<Longrightarrow> idx < graph_size g \<Longrightarrow> is_node_active g idx = Inr (active (g ! nat idx))"
  by (simp add: is_node_active_def node_def vector_at_def graph_size_def)

lemma is_node_active_True_range:
  "is_node_active g idx = Inr True \<Longrightarrow> 0 \<le> idx \<and> idx < graph_size g"
  by (auto simp: is_node_active_def node_def vector_at_def graph_size_def split: if_splits)

lemma is_match_active_loop_in_range:
  "\<forall>idx\<in>set m. 0 \<le> idx \<and> idx < graph_size g \<Longrightarrow>
   is_match_active_loop g m flag =
     Inr (flag \<and> (\<forall>idx\<in>set m. is_node_active g idx = Inr True))"
proof (induction m arbitrary: flag)
  case Nil
  then show ?case by simp
next
  case (Cons idx m)
  then have "is_node_active g idx = Inr (active (g ! nat idx))"
    by (simp add: is_node_active_Inr)
  then show ?case using Cons by auto
qed

lemma is_match_active_loop_all_active:
  assumes "\<forall>idx\<in>set m. is_node_active g idx = Inr True"
  shows "is_match_active_loop g m True = Inr True"
proof -
  have "\<forall>idx\<in>set m. 0 \<le> idx \<and> idx < graph_size g"
    using assms is_node_active_True_range by blast
  from is_match_active_loop_in_range [OF this] assms show ?thesis by simp
qed

lemma ReplacePattern_append:
  "ReplacePattern T (pre @ post) graph =
     (case ReplacePattern T pre graph of Inl e \<Rightarrow> Inl e | Inr graph' \<Rightarrow> ReplacePattern T post graph')"
  by (induction pre arbitrary: graph) (auto split: sum.splits prod.splits)

lemma ReplacePattern_single:
  assumes "\<forall>idx\<in>set m. 0 \<le> idx \<and> idx < graph_size graph"
  shows "ReplacePattern T [m] graph =
     (if \<forall>idx\<in>set m. is_node_active graph idx = Inr True
      then (case ReplaceRule T m graph of
              (ok, graph') \<Rightarrow> if ok then Inr graph' else Inl (ReplaceFailed, graph'))
      else Inr graph)"
  by (auto simp: is_match_active_loop_in_range [OF assms] split: prod.splits)

lemma ReplacePattern_frame:
  assumes "\<forall>m h. snd (ReplaceRule T m h) = h"
  shows "ReplacePattern T matches g = Inr g \<or> (\<exists>e. ReplacePattern T matches g = Inl (e, g))"
proof (induction matches)
  case Nil
  then show ?case by simp
next
  case (Cons m matches)
  have "snd (ReplaceRule T m g) = g" using assms by blast
  then obtain ok where "ReplaceRule T m g = (ok, g)" by (cases "ReplaceRule T m g") auto
  then show ?case using Cons by (auto split: sum.splits)
qed

section \<open>The size checks of the expansion\<close>

lemma sorted_loop_Inl:
  "sorted_loop rec T g matched i sg best = Inl e \<Longrightarrow> e = OutOfRange \<or> (\<exists>s b. rec s b = Inl e)"
proof (induction rec T g matched i sg best rule: sorted_loop.induct)
  case (1 rec T g matched i sg best)
  show ?case
  proof (cases "i < graph_size g")
    case False
    then show ?thesis using "1.prems" by (simp add: sorted_loop.simps [of _ _ _ _ i])
  next
    case True
    show ?thesis
    proof (cases "try_candidate rec T g matched i sg best")
      case (Inl e')
      then have "e' = e" using "1.prems" True by (simp add: sorted_loop.simps [of _ _ _ _ i])
      then show ?thesis using try_candidate_Inl [OF Inl] by blast
    next
      case (Inr r)
      obtain sg1 b1 where r: "r = (sg1, b1)" by (cases r)
      then have "sorted_loop rec T g matched (i + 1) sg1 b1 = Inl e"
        using "1.prems" True Inr by (simp add: sorted_loop.simps [of _ _ _ _ i])
      then show ?thesis using "1.IH" [OF True Inr r [symmetric]] by simp
    qed
  qed
qed

lemma general_loop_Inl:
  "general_loop rec T g matched i sg best = Inl e \<Longrightarrow> e = OutOfRange \<or> (\<exists>s b. rec s b = Inl e)"
proof (induction rec T g matched i sg best rule: general_loop.induct)
  case (1 rec T g matched i sg best)
  show ?case
  proof (cases "i < graph_size g")
    case False
    then show ?thesis using "1.prems" by (simp add: general_loop.simps [of _ _ _ _ i])
  next
    case True
    show ?thesis
    proof (cases "i \<in> set sg")
      case m: True
      then have "general_loop rec T g matched (i + 1) sg best = Inl e"
        using "1.prems" True by (simp add: general_loop.simps [of _ _ _ _ i])
      then show ?thesis using "1.IH"(2) [OF True] m by simp
    next
      case m: False
      show ?thesis
      proof (cases "try_candidate rec T g matched i sg best")
        case (Inl e')
        then have "e' = e" using "1.prems" True m by (simp add: general_loop.simps [of _ _ _ _ i])
        then show ?thesis using try_candidate_Inl [OF Inl] by blast
      next
        case (Inr r)
        obtain sg1 b1 where r: "r = (sg1, b1)" by (cases r)
        then have "general_loop rec T g matched (i + 1) sg1 b1 = Inl e"
          using "1.prems" True m Inr by (simp add: general_loop.simps [of _ _ _ _ i])
        then show ?thesis using "1.IH"(1) [OF True m Inr r [symmetric]] by simp
      qed
    qed
  qed
qed

lemma connected_loop_first_check:
  assumes "i < length sg" "node g (sg ! i) = Inr nd"
    and "TryNeighbors rec T g (children nd) matched sg b = Inr (sg1, b1)"
    and "length sg1 \<noteq> size_before"
  shows "connected_loop rec T g matched size_before i sg b = Inl EnforceNotMet"
  using assms by (subst connected_loop.simps) auto

lemma connected_loop_second_check:
  assumes "i < length sg" "node g (sg ! i) = Inr nd"
    and "TryNeighbors rec T g (children nd) matched sg b = Inr (sg1, b1)"
    and "length sg1 = size_before"
    and "TryNeighbors rec T g (parents nd) matched sg1 b1 = Inr (sg2, b2)"
    and "length sg2 \<noteq> size_before"
  shows "connected_loop rec T g matched size_before i sg b = Inl EnforceNotMet"
  using assms by (subst connected_loop.simps) auto

lemma unchecked_body_Inl:
  assumes "pattern_match_type T \<noteq> CONNECTED_SUBGRAPH"
    and "PatternMatchHelper_body rec T g matched sg best = Inl EnforceNotMet"
  shows "\<exists>s b. rec s b = Inl EnforceNotMet"
proof (cases "pattern_match_type T")
  case CONNECTED_SUBGRAPH
  then show ?thesis using assms(1) by simp
next
  case SORTED_WRT_EXECUTION_ORDER
  then obtain i b where "sorted_loop rec T g matched i sg b = Inl EnforceNotMet"
    using assms(2) by (auto simp: PatternMatchHelper_body_def expand_def Let_def)
  from sorted_loop_Inl [OF this] show ?thesis by simp
next
  case GENERAL
  then have "general_loop rec T g matched 0 sg (update_best T g sg best) = Inl EnforceNotMet"
    using assms(2) by (simp add: PatternMatchHelper_body_def expand_def)
  from general_loop_Inl [OF this] show ?thesis by simp
next
  case UNKNOWN_TYPE
  then show ?thesis using assms(2) by (simp add: PatternMatchHelper_body_def expand_def)
qed

section \<open>The example inputs, evaluated\<close>

lemma PatternMatch_single_connected:
  "PatternMatch (accept_all single CONNECTED_SUBGRAPH) chain_graph = Inr [[0], [1], [2]]"
  by code_simp

lemma PatternMatch_two_connected:
  "PatternMatch (accept_all at_least_two CONNECTED_SUBGRAPH) chain_graph = Inr [[0, 1, 2]]"
  by code_simp

lemma PatternMatch_two_sorted:
  "PatternMatch (accept_all at_least_two SORTED_WRT_EXECUTION_ORDER) chain_graph = Inr [[0, 1, 2]]"
  by code_simp

lemma PatternMatchHelper_two_connected:
  "PatternMatchHelper (accept_all at_least_two CONNECTED_SUBGRAPH) chain_graph
     [False, False, False] [0] [] = Inr ([0], [0, 1, 2])"
  by code_simp

lemma PatternMatchHelper_two_general:
  "PatternMatchHelper (accept_all at_least_two GENERAL) chain_graph
     [False, False, False] [0] [] = Inr ([0], [0, 1, 2])"
  by code_simp

lemma PatternMatchHelper_body_do_nothing:
  "PatternMatchHelper_body do_nothing (accept_all single CONNECTED_SUBGRAPH) chain_graph
     [False, False, False] [0] [] = Inr ([0], [0])"
  by code_simp

lemma node_chain_0: "node chain_graph 0 = Inr (chain_graph ! 0)"
  by code_simp

lemma node_chain_2: "node chain_graph 2 = Inr (chain_graph ! 2)"
  by code_simp

lemma TryNeighbors_children_0:
  "TryNeighbors grow_by_one (accept_all single CONNECTED_SUBGRAPH) chain_graph
     (children (chain_graph ! 0)) [False, False, False] [0] [0] = Inr ([0, 1], [0])"
  by code_simp

lemma TryNeighbors_children_2:
  "TryNeighbors grow_by_one (accept_all single CONNECTED_SUBGRAPH) chain_graph
     (children (chain_graph ! 2)) [False, False, False] [2] [2] = Inr ([2], [2])"
  by code_simp

lemma TryNeighbors_parents_2:
  "TryNeighbors grow_by_one (accept_all single CONNECTED_SUBGRAPH) chain_graph
     (parents (chain_graph ! 2)) [False, False, False] [2] [2] = Inr ([2, 1], [2])"
  by code_simp

lemma PatternMatchHelper_body_breach:
  "PatternMatchHelper_body breach (accept_all single SORTED_WRT_EXECUTION_ORDER) chain_graph
     [False, False, False] [0] [] = Inl EnforceNotMet"
  by code_simp

lemma explored_two_general:
  "explored (accept_all at_least_two GENERAL) chain_graph [False, False, False] [0]
     = Inr [[0], [0, 1], [0, 1, 2], [0, 2], [0, 2, 1]]"
  by code_simp

lemma explored_two_sorted:
  "explored (accept_all at_least_two SORTED_WRT_EXECUTION_ORDER) chain_graph
     [False, False, False] [0] = Inr [[0], [0, 1], [0, 1, 2], [0, 2]]"
  by code_simp

lemma explored_two_connected:
  "explored (accept_all at_least_two CONNECTED_SUBGRAPH) chain_graph
     [False, False, False] [0] = Inr [[0], [0, 1], [0, 1, 2]]"
  by code_simp

lemma start_round_single:
  "try_candidate (PatternMatchHelper (accept_all single CONNECTED_SUBGRAPH) chain_graph
      [False, False, False]) (accept_all single CONNECTED_SUBGRAPH) chain_graph
      [False, False, False] 0 [] [] = Inr ([], [0])"
  by code_simp

lemma ReplacePattern_first:
  "ReplacePattern (accept_all single GENERAL) (take 1 [[0, 1], [1, 2]]) chain_graph
     = Inr (deactivate [0, 1] chain_graph)"
  by code_simp

lemma ReplacePattern_pre:
  "ReplacePattern (failing_on [1] single GENERAL) [[0]] chain_graph
     = Inr (deactivate [0] chain_graph)"
  by code_simp

lemma ReplaceRule_failing:
  "ReplaceRule (failing_on [1] single GENERAL) [1] (deactivate [0] chain_graph)
     = (False, deactivate [0, 1] chain_graph)"
  by code_simp

lemma active_after_pre: "is_node_active (deactivate [0] chain_graph) 1 = Inr True"
  by code_simp

section \<open>The claims\<close>

text \<open>
  Claim C1. For every graph and every rule set, each match returned by \<open>PatternMatch\<close>
  is a sequence of pairwise distinct node indices, each element was accepted by
  \<open>PatternRule\<close> against the prefix before it, and the whole sequence satisfies
  \<open>ValidatorRule\<close>. (\<open>PatternMatch\<close> does return a list of matches on every graph
  whose neighbour keys are node indices, under each of the three strategies:
  \<open>PatternMatch_returns\<close>.)
\<close>

theorem PatternMatch_matches_accepted:
  assumes "PatternMatch T g = Inr matches"
  shows "\<forall>m\<in>set matches. distinct m \<and> (\<forall>k<length m. PatternRule T g (take k m) (m ! k)) \<and>
                          ValidatorRule T g m"
proof -
  from PatternMatch_registry_ok [OF assms] obtain idx matched
    where "registry_ok T g idx matched matches" by blast
  then have "\<forall>m\<in>set matches. match_ok T g m" by (simp add: registry_ok_def)
  then show ?thesis by (simp add: match_ok_def)
qed

theorem PatternMatch_matches_accepted_witness:
  "PatternMatch (accept_all at_least_two CONNECTED_SUBGRAPH) chain_graph = Inr [[0, 1, 2]] \<and>
   distinct [0, 1, 2 :: int] \<and>
   PatternRule (accept_all at_least_two CONNECTED_SUBGRAPH) chain_graph [0, 1] 2 \<and>
   ValidatorRule (accept_all at_least_two CONNECTED_SUBGRAPH) chain_graph [0, 1, 2]"
  using PatternMatch_two_connected
    PatternMatch_matches_accepted [OF PatternMatch_two_connected]
  by (simp add: accept_all_def at_least_two_def)

text \<open>
  Claim C2. No two matches at different positions of the list returned by one call of
  \<open>PatternMatch\<close> share a node index. The mechanism: recording a match whose nodes were
  unmarked marks all of them in the registry; and the candidate test, which every start
  index and every expansion candidate goes through, leaves the search state as it is
  for a marked index, without entering the recursion \<open>rec\<close>.
\<close>

theorem PatternMatch_matches_disjoint:
  "(PatternMatch T g = Inr matches \<longrightarrow>
      (\<forall>i<length matches. \<forall>j<length matches. i \<noteq> j \<longrightarrow>
         set (matches ! i) \<inter> set (matches ! j) = {})) \<and>
   ((\<forall>x\<in>set best. vector_at matched x = Inr False) \<longrightarrow>
      (\<forall>x\<in>set best. vector_at (mark_matched matched best) x = Inr True)) \<and>
   (vector_at matched c = Inr True \<longrightarrow> try_candidate rec T g matched c sg b = Inr (sg, b))"
proof (intro conjI impI)
  assume "PatternMatch T g = Inr matches"
  from PatternMatch_registry_ok [OF this] obtain idx matched
    where "registry_ok T g idx matched matches" by blast
  then have d: "sorted_wrt (\<lambda>a b. set a \<inter> set b = {}) matches" by (simp add: registry_ok_def)
  have lt: "set (matches ! i) \<inter> set (matches ! j) = {}" if "i < j" "j < length matches" for i j
    using sorted_wrt_nth_less [OF d that] .
  show "\<forall>i<length matches. \<forall>j<length matches. i \<noteq> j \<longrightarrow>
          set (matches ! i) \<inter> set (matches ! j) = {}"
  proof (intro allI impI)
    fix i j assume "i < length matches" "j < length matches" "i \<noteq> j"
    then consider "i < j" | "j < i" by linarith
    then show "set (matches ! i) \<inter> set (matches ! j) = {}"
    proof cases
      case 1
      then show ?thesis using lt \<open>j < length matches\<close> by simp
    next
      case 2
      then show ?thesis using lt [of j i] \<open>i < length matches\<close> by blast
    qed
  qed
next
  assume "\<forall>x\<in>set best. vector_at matched x = Inr False"
  then show "\<forall>x\<in>set best. vector_at (mark_matched matched best) x = Inr True"
    by (rule mark_matched_marks)
next
  assume "vector_at matched c = Inr True"
  then show "try_candidate rec T g matched c sg b = Inr (sg, b)"
    by (rule try_candidate_marked)
qed

theorem PatternMatch_matches_disjoint_witness:
  "PatternMatch (accept_all single CONNECTED_SUBGRAPH) chain_graph = Inr [[0], [1], [2]] \<and>
   set ([[0], [1], [2 :: int]] ! 0) \<inter> set ([[0], [1], [2]] ! 2) = {} \<and>
   vector_at [False, False, False] 0 = Inr False \<and>
   vector_at (mark_matched [False, False, False] [0]) 0 = Inr True \<and>
   vector_at [True, False, False] 0 = Inr True \<and>
   try_candidate do_nothing (accept_all single CONNECTED_SUBGRAPH) chain_graph
     [True, False, False] 0 [1] [] = Inr ([1], [])"
proof -
  note h = PatternMatch_single_connected
  note t = PatternMatch_matches_disjoint [where T = "accept_all single CONNECTED_SUBGRAPH"
      and g = chain_graph and matches = "[[0], [1], [2]]" and best = "[0]"
      and matched = "[False, False, False]" and c = 0 and rec = do_nothing and sg = "[1]"
      and b = "[]"]
  note t' = PatternMatch_matches_disjoint [where T = "accept_all single CONNECTED_SUBGRAPH"
      and g = chain_graph and matches = "[[0], [1], [2]]" and best = "[0]"
      and matched = "[True, False, False]" and c = 0 and rec = do_nothing and sg = "[1]"
      and b = "[]"]
  have "(0::nat) < length [[0], [1], [2 :: int]]" "(2::nat) < length [[0], [1], [2 :: int]]"
    "(0::nat) \<noteq> 2" by simp_all
  then have 1: "set ([[0], [1], [2 :: int]] ! 0) \<inter> set ([[0], [1], [2]] ! 2) = {}"
    using t h by blast
  have 2: "vector_at [False, False, False] 0 = Inr False" by (simp add: vector_at_def)
  then have "\<forall>x\<in>set [0]. vector_at [False, False, False] x = Inr False" by simp
  then have "\<forall>x\<in>set [0]. vector_at (mark_matched [False, False, False] [0]) x = Inr True"
    using t by blast
  then have 3: "vector_at (mark_matched [False, False, False] [0]) 0 = Inr True" by simp
  have 4: "vector_at [True, False, False] 0 = Inr True" by (simp add: vector_at_def)
  have 5: "try_candidate do_nothing (accept_all single CONNECTED_SUBGRAPH) chain_graph
     [True, False, False] 0 [1] [] = Inr ([1], [])"
    using t' 4 by blast
  show ?thesis using h 1 2 3 4 5 by blast
qed

text \<open>
  Claim C3. \<open>ReplacePattern\<close> goes through the matches in the order of the list. When
  the matches before position \<open>k\<close> have been processed without an exception and have
  left the graph \<open>graph_k\<close>, and the indices of match \<open>k\<close> name nodes of \<open>graph_k\<close>, then
  the rewrite rule is applied to match \<open>k\<close> and \<open>graph_k\<close> if every node of the match is
  active in \<open>graph_k\<close>, and its outcome is the outcome of the step; otherwise the match is
  skipped: the graph stays \<open>graph_k\<close> and no exception is raised.
\<close>

theorem ReplacePattern_step:
  assumes "ReplacePattern T (take k matches) graph = Inr graph_k"
    and "k < length matches"
    and "\<forall>idx\<in>set (matches ! k). 0 \<le> idx \<and> idx < graph_size graph_k"
  shows "ReplacePattern T (take (Suc k) matches) graph =
     (if \<forall>idx\<in>set (matches ! k). is_node_active graph_k idx = Inr True
      then (case ReplaceRule T (matches ! k) graph_k of
              (ok, graph') \<Rightarrow> if ok then Inr graph' else Inl (ReplaceFailed, graph'))
      else Inr graph_k)"
proof -
  have "take (Suc k) matches = take k matches @ [matches ! k]"
    using assms(2) by (rule take_Suc_conv_app_nth)
  then have "ReplacePattern T (take (Suc k) matches) graph = ReplacePattern T [matches ! k] graph_k"
    using assms(1) by (simp add: ReplacePattern_append del: ReplacePattern.simps)
  then show ?thesis by (simp only: ReplacePattern_single [OF assms(3)])
qed

theorem ReplacePattern_step_witness:
  "ReplacePattern (accept_all single GENERAL) (take 1 [[0, 1], [1, 2]]) chain_graph
     = Inr (deactivate [0, 1] chain_graph) \<and>
   (1::nat) < length [[0, 1], [1, 2 :: int]] \<and>
   graph_size (deactivate [0, 1] chain_graph) = 3 \<and>
   is_node_active (deactivate [0, 1] chain_graph) 1 = Inr False \<and>
   ReplacePattern (accept_all single GENERAL) (take (Suc 1) [[0, 1], [1, 2]]) chain_graph
     = Inr (deactivate [0, 1] chain_graph)"
proof -
  have 1: "(1::nat) < length [[0, 1], [1, 2 :: int]]" by simp
  have s: "graph_size (deactivate [0, 1] chain_graph) = 3" by code_simp
  have 2: "\<forall>idx\<in>set ([[0, 1], [1, 2]] ! 1). 0 \<le> idx \<and> idx < graph_size (deactivate [0, 1] chain_graph)"
    by (simp add: s)
  have a: "is_node_active (deactivate [0, 1] chain_graph) 1 = Inr False" by code_simp
  have "ReplacePattern (accept_all single GENERAL) (take (Suc 1) [[0, 1], [1, 2]]) chain_graph
     = Inr (deactivate [0, 1] chain_graph)"
    using ReplacePattern_step [OF ReplacePattern_first 1 2] a by simp
  then show ?thesis using ReplacePattern_first 1 s a by blast
qed

text \<open>
  Claim C4. When the matches \<open>pre\<close> have been processed without an exception and have
  left the graph \<open>graph1\<close>, every node of the next match \<open>m\<close> is active in \<open>graph1\<close>, and
  the rewrite rule returns false on \<open>m\<close>, leaving the graph \<open>graph2\<close>, then
  \<open>ReplacePattern\<close> raises \<open>ReplaceFailed\<close> with the graph \<open>graph2\<close>: the rewrites of \<open>pre\<close>
  stay, what the failing rewrite did to the graph stays, and the matches \<open>post\<close> after
  \<open>m\<close> have no influence on the outcome.
\<close>

theorem ReplacePattern_abort:
  assumes "ReplacePattern T pre graph = Inr graph1"
    and "\<forall>idx\<in>set m. is_node_active graph1 idx = Inr True"
    and "ReplaceRule T m graph1 = (False, graph2)"
  shows "ReplacePattern T (pre @ m # post) graph = Inl (ReplaceFailed, graph2)"
proof -
  have "ReplacePattern T (m # post) graph1 = Inl (ReplaceFailed, graph2)"
    using is_match_active_loop_all_active [OF assms(2)] assms(3) by simp
  then show ?thesis using assms(1) by (simp add: ReplacePattern_append del: ReplacePattern.simps)
qed

theorem ReplacePattern_abort_witness:
  "ReplacePattern (failing_on [1] single GENERAL) [[0]] chain_graph
     = Inr (deactivate [0] chain_graph) \<and>
   is_node_active (deactivate [0] chain_graph) 1 = Inr True \<and>
   ReplaceRule (failing_on [1] single GENERAL) [1] (deactivate [0] chain_graph)
     = (False, deactivate [0, 1] chain_graph) \<and>
   ReplacePattern (failing_on [1] single GENERAL) ([[0]] @ [1] # [[2]]) chain_graph
     = Inl (ReplaceFailed, deactivate [0, 1] chain_graph)"
proof -
  have a: "\<forall>idx\<in>set [1]. is_node_active (deactivate [0] chain_graph) idx = Inr True"
    using active_after_pre by simp
  show ?thesis
    using ReplacePattern_abort [OF ReplacePattern_pre a ReplaceRule_failing, of "[[2]]"]
      ReplacePattern_pre active_after_pre ReplaceRule_failing
    by blast
qed

text \<open>
  Claim C5, as the code has it. For every strategy, a call of \<open>PatternMatchHelper\<close> that
  returns leaves the working subgraph as it was at the call. Under \<open>CONNECTED_SUBGRAPH\<close>
  this is checked as well, whatever the recursive calls \<open>rec\<close> do: the body is the loop
  over the subgraph with the size of the subgraph recorded in \<^verbatim>\<open>size_before\<close>; in every
  round of the loop, a subgraph of another size after the call of \<open>TryNeighbors\<close> on
  the children raises \<open>EnforceNotMet\<close>, and so does a subgraph of another size after
  the call of \<open>TryNeighbors\<close> on the parents; hence the body returns only with a
  subgraph of the recorded size. Under the other strategies nothing is checked: the
  body raises \<open>EnforceNotMet\<close> only if a recursive call has raised it.
\<close>

theorem subgraph_restored:
  "(PatternMatchHelper T g matched sg best = Inr (sg', best') \<longrightarrow> sg' = sg) \<and>
   (pattern_match_type T = CONNECTED_SUBGRAPH \<longrightarrow>
      PatternMatchHelper_body rec T g matched sg best =
        connected_loop rec T g matched (length sg) 0 sg (update_best T g sg best)) \<and>
   (i < length sg \<longrightarrow> node g (sg ! i) = Inr nd \<longrightarrow>
      TryNeighbors rec T g (children nd) matched sg b = Inr (sg1, b1) \<longrightarrow>
      length sg1 \<noteq> size_before \<longrightarrow>
      connected_loop rec T g matched size_before i sg b = Inl EnforceNotMet) \<and>
   (i < length sg \<longrightarrow> node g (sg ! i) = Inr nd \<longrightarrow>
      TryNeighbors rec T g (children nd) matched sg b = Inr (sg1, b1) \<longrightarrow>
      length sg1 = size_before \<longrightarrow>
      TryNeighbors rec T g (parents nd) matched sg1 b1 = Inr (sg2, b2) \<longrightarrow>
      length sg2 \<noteq> size_before \<longrightarrow>
      connected_loop rec T g matched size_before i sg b = Inl EnforceNotMet) \<and>
   (pattern_match_type T = CONNECTED_SUBGRAPH \<longrightarrow>
      PatternMatchHelper_body rec T g matched sg best = Inr (sg'', best'') \<longrightarrow>
      length sg'' = length sg) \<and>
   (pattern_match_type T \<noteq> CONNECTED_SUBGRAPH \<longrightarrow>
      PatternMatchHelper_body rec T g matched sg best = Inl EnforceNotMet \<longrightarrow>
      (\<exists>s c. rec s c = Inl EnforceNotMet))"
proof (intro conjI impI)
  assume "PatternMatchHelper T g matched sg best = Inr (sg', best')"
  then show "sg' = sg" by (simp add: PatternMatchHelper_improved)
next
  assume "pattern_match_type T = CONNECTED_SUBGRAPH"
  then show "PatternMatchHelper_body rec T g matched sg best =
        connected_loop rec T g matched (length sg) 0 sg (update_best T g sg best)"
    by (simp add: PatternMatchHelper_body_def expand_def)
next
  assume "i < length sg" "node g (sg ! i) = Inr nd"
    "TryNeighbors rec T g (children nd) matched sg b = Inr (sg1, b1)"
    "length sg1 \<noteq> size_before"
  then show "connected_loop rec T g matched size_before i sg b = Inl EnforceNotMet"
    by (rule connected_loop_first_check)
next
  assume "i < length sg" "node g (sg ! i) = Inr nd"
    "TryNeighbors rec T g (children nd) matched sg b = Inr (sg1, b1)"
    "length sg1 = size_before"
    "TryNeighbors rec T g (parents nd) matched sg1 b1 = Inr (sg2, b2)"
    "length sg2 \<noteq> size_before"
  then show "connected_loop rec T g matched size_before i sg b = Inl EnforceNotMet"
    by (rule connected_loop_second_check)
next
  assume "pattern_match_type T = CONNECTED_SUBGRAPH"
    and "PatternMatchHelper_body rec T g matched sg best = Inr (sg'', best'')"
  then have "connected_loop rec T g matched (length sg) 0 sg (update_best T g sg best)
               = Inr (sg'', best'')"
    by (simp add: PatternMatchHelper_body_def expand_def)
  from connected_loop_size [OF this] show "length sg'' = length sg" by auto
next
  assume "pattern_match_type T \<noteq> CONNECTED_SUBGRAPH"
    and "PatternMatchHelper_body rec T g matched sg best = Inl EnforceNotMet"
  then show "\<exists>s c. rec s c = Inl EnforceNotMet" by (rule unchecked_body_Inl)
qed

theorem subgraph_restored_witness:
  "PatternMatchHelper (accept_all at_least_two CONNECTED_SUBGRAPH) chain_graph
     [False, False, False] [0] [] = Inr ([0], [0, 1, 2]) \<and>
   pattern_match_type (accept_all single CONNECTED_SUBGRAPH) = CONNECTED_SUBGRAPH \<and>
   PatternMatchHelper_body do_nothing (accept_all single CONNECTED_SUBGRAPH) chain_graph
     [False, False, False] [0] [] = Inr ([0], [0]) \<and>
   (0 :: nat) < length [0 :: int] \<and>
   node chain_graph ([0] ! 0) = Inr (chain_graph ! 0) \<and>
   TryNeighbors grow_by_one (accept_all single CONNECTED_SUBGRAPH) chain_graph
     (children (chain_graph ! 0)) [False, False, False] [0] [0] = Inr ([0, 1], [0]) \<and>
   length [0, 1 :: int] \<noteq> 1 \<and>
   connected_loop grow_by_one (accept_all single CONNECTED_SUBGRAPH) chain_graph
     [False, False, False] 1 0 [0] [0] = Inl EnforceNotMet \<and>
   node chain_graph ([2] ! 0) = Inr (chain_graph ! 2) \<and>
   TryNeighbors grow_by_one (accept_all single CONNECTED_SUBGRAPH) chain_graph
     (children (chain_graph ! 2)) [False, False, False] [2] [2] = Inr ([2], [2]) \<and>
   TryNeighbors grow_by_one (accept_all single CONNECTED_SUBGRAPH) chain_graph
     (parents (chain_graph ! 2)) [False, False, False] [2] [2] = Inr ([2, 1], [2]) \<and>
   connected_loop grow_by_one (accept_all single CONNECTED_SUBGRAPH) chain_graph
     [False, False, False] 1 0 [2] [2] = Inl EnforceNotMet \<and>
   pattern_match_type (accept_all single SORTED_WRT_EXECUTION_ORDER) \<noteq> CONNECTED_SUBGRAPH \<and>
   PatternMatchHelper_body breach (accept_all single SORTED_WRT_EXECUTION_ORDER) chain_graph
     [False, False, False] [0] [] = Inl EnforceNotMet \<and>
   (\<exists>s c. breach s c = Inl EnforceNotMet)"
proof -
  let ?C = "accept_all single CONNECTED_SUBGRAPH"
  let ?S = "accept_all single SORTED_WRT_EXECUTION_ORDER"
  have tc: "pattern_match_type ?C = CONNECTED_SUBGRAPH" by (simp add: accept_all_def)
  have ts: "pattern_match_type ?S \<noteq> CONNECTED_SUBGRAPH" by (simp add: accept_all_def)
  have n0: "node chain_graph ([0] ! 0) = Inr (chain_graph ! 0)" using node_chain_0 by simp
  have n2: "node chain_graph ([2] ! 0) = Inr (chain_graph ! 2)" using node_chain_2 by simp
  have l0: "(0 :: nat) < length [0 :: int]" and l2: "(0 :: nat) < length [2 :: int]"
    and d1: "length [0, 1 :: int] \<noteq> 1" and e2: "length [2 :: int] = 1"
    and d2: "length [2, 1 :: int] \<noteq> 1" by simp_all
  note a = subgraph_restored [where T = "accept_all at_least_two CONNECTED_SUBGRAPH"
      and g = chain_graph and matched = "[False, False, False]" and sg = "[0]" and best = "[]"
      and sg' = "[0]" and best' = "[0, 1, 2]"]
  note b = subgraph_restored [where T = ?C and rec = do_nothing
      and g = chain_graph and matched = "[False, False, False]" and sg = "[0]" and best = "[]"
      and sg'' = "[0]" and best'' = "[0]"]
  note c = subgraph_restored [where T = ?C and rec = grow_by_one and g = chain_graph
      and matched = "[False, False, False]" and sg = "[0]" and i = 0 and nd = "chain_graph ! 0"
      and b = "[0]" and ?sg1.0 = "[0, 1]" and ?b1.0 = "[0]" and size_before = 1]
  note d = subgraph_restored [where T = ?C and rec = grow_by_one and g = chain_graph
      and matched = "[False, False, False]" and sg = "[2]" and i = 0 and nd = "chain_graph ! 2"
      and b = "[2]" and ?sg1.0 = "[2]" and ?b1.0 = "[2]" and ?sg2.0 = "[2, 1]" and ?b2.0 = "[2]"
      and size_before = 1]
  note e = subgraph_restored [where T = ?S and rec = breach and g = chain_graph
      and matched = "[False, False, False]" and sg = "[0]" and best = "[]"]
  have 1: "connected_loop grow_by_one ?C chain_graph [False, False, False] 1 0 [0] [0]
             = Inl EnforceNotMet"
    using c l0 n0 TryNeighbors_children_0 d1 by blast
  have 2: "connected_loop grow_by_one ?C chain_graph [False, False, False] 1 0 [2] [2]
             = Inl EnforceNotMet"
    using d l2 n2 TryNeighbors_children_2 e2 TryNeighbors_parents_2 d2 by blast
  have 3: "\<exists>s c. breach s c = Inl EnforceNotMet"
    using e ts PatternMatchHelper_body_breach by blast
  have 4: "length [0 :: int] = length [0 :: int]"
    using b tc PatternMatchHelper_body_do_nothing by blast
  have 5: "[0 :: int] = [0]" using a PatternMatchHelper_two_connected by blast
  show ?thesis
    using PatternMatchHelper_two_connected tc PatternMatchHelper_body_do_nothing l0 n0
      TryNeighbors_children_0 d1 1 n2 TryNeighbors_children_2 TryNeighbors_parents_2 2 ts
      PatternMatchHelper_body_breach 3 4 5
    by blast
qed

text \<open>
  Claim C5, as stated, fails for the strategies \<open>SORTED_WRT_EXECUTION_ORDER\<close> and
  \<open>GENERAL\<close>: their branches compare no sizes. With a callee that returns with one
  more element on the working subgraph, the body of \<open>PatternMatchHelper\<close> called on
  \<open>[0]\<close> returns with the subgraph \<open>[0, 1, 2]\<close> under both, and no exception is raised;
  under \<open>CONNECTED_SUBGRAPH\<close> the same callee is caught by the \<^verbatim>\<open>CAFFE_ENFORCE\<close>.
\<close>

theorem size_check_counterexample:
  "PatternMatchHelper_body grow_by_one (accept_all single SORTED_WRT_EXECUTION_ORDER)
     chain_graph [False, False, False] [0] [] = Inr ([0, 1, 2], [0]) \<and>
   PatternMatchHelper_body grow_by_one (accept_all single GENERAL)
     chain_graph [False, False, False] [0] [] = Inr ([0, 1, 2], [0]) \<and>
   PatternMatchHelper_body grow_by_one (accept_all single CONNECTED_SUBGRAPH)
     chain_graph [False, False, False] [0] [] = Inl EnforceNotMet"
  by code_simp

text \<open>
  Claim C6. Let \<open>log\<close> be the working subgraphs that a call of \<open>PatternMatchHelper\<close> on
  \<open>sg\<close> visits, in the order of the visits. The best-subgraph buffer it returns is the
  result of going through \<open>log\<close> and overwriting the buffer with the visited subgraph
  exactly when \<open>ValidatorRule\<close> holds for it and it is strictly longer than the buffer.
  Hence the returned buffer is the one passed in, when no validated subgraph of \<open>log\<close>
  is longer than it, or else it is the first of the longest validated subgraphs of
  \<open>log\<close>: no validated subgraph of \<open>log\<close> is longer, and every validated one visited
  before it is strictly shorter.
\<close>

theorem best_subgraph_first_maximal:
  assumes "PatternMatchHelper T g matched sg best = Inr (sg', best')"
  shows "\<exists>log. explored T g matched sg = Inr log \<and>
           best' = foldl (\<lambda>b s. if ValidatorRule T g s \<and> length b < length s then s else b)
                     best log \<and>
           (best' = best \<and>
              (\<forall>s\<in>set log. ValidatorRule T g s \<longrightarrow> length s \<le> length best) \<or>
            (\<exists>i<length log. best' = log ! i \<and> ValidatorRule T g (log ! i) \<and>
               length best < length (log ! i) \<and>
               (\<forall>j<length log. ValidatorRule T g (log ! j) \<longrightarrow>
                                length (log ! j) \<le> length (log ! i)) \<and>
               (\<forall>j<i. ValidatorRule T g (log ! j) \<longrightarrow> length (log ! j) < length (log ! i))))"
proof -
  from PatternMatchHelper_explored [OF assms] obtain log
    where e: "explored T g matched sg = Inr log" and b: "best' = best_after T g best log"
    by blast
  have "best' = foldl (\<lambda>b s. if ValidatorRule T g s \<and> length b < length s then s else b) best log"
    using b by (simp add: best_after_def update_best_def)
  moreover have "best' = best \<and>
              (\<forall>s\<in>set log. ValidatorRule T g s \<longrightarrow> length s \<le> length best) \<or>
            (\<exists>i<length log. best' = log ! i \<and> ValidatorRule T g (log ! i) \<and>
               length best < length (log ! i) \<and>
               (\<forall>j<length log. ValidatorRule T g (log ! j) \<longrightarrow>
                                length (log ! j) \<le> length (log ! i)) \<and>
               (\<forall>j<i. ValidatorRule T g (log ! j) \<longrightarrow> length (log ! j) < length (log ! i)))"
    using best_after_first_maximal [of T g best log] unfolding b by blast
  ultimately show ?thesis using e by blast
qed

theorem best_subgraph_first_maximal_witness:
  "PatternMatchHelper (accept_all at_least_two GENERAL) chain_graph
     [False, False, False] [0] [] = Inr ([0], [0, 1, 2]) \<and>
   explored (accept_all at_least_two GENERAL) chain_graph [False, False, False] [0]
     = Inr [[0], [0, 1], [0, 1, 2], [0, 2], [0, 2, 1]] \<and>
   [0, 1, 2] = foldl (\<lambda>b s. if ValidatorRule (accept_all at_least_two GENERAL) chain_graph s \<and>
                                length b < length s then s else b)
                 [] [[0], [0, 1], [0, 1, 2], [0, 2], [0, 2, 1]]"
  using best_subgraph_first_maximal [OF PatternMatchHelper_two_general]
    PatternMatchHelper_two_general explored_two_general
  by auto

text \<open>
  Claim C7. Under the strategy \<open>SORTED_WRT_EXECUTION_ORDER\<close>, every working subgraph that
  the expansion of a subgraph \<open>sg\<close> visits is \<open>sg\<close> followed by unmatched indices in
  strictly increasing order, all greater than the last element of \<open>sg\<close> when \<open>sg\<close> is
  not empty: an index is only ever appended behind a smaller one. And every match
  returned by \<open>PatternMatch\<close> has strictly increasing node indices.
\<close>

theorem sorted_strategy_increasing:
  assumes "pattern_match_type T = SORTED_WRT_EXECUTION_ORDER"
  shows "(explored T g matched sg = Inr log \<longrightarrow>
            (\<forall>s\<in>set log. \<exists>ext. s = sg @ ext \<and> sorted_wrt (<) ext \<and>
               (\<forall>x\<in>set ext. (sg \<noteq> [] \<longrightarrow> last sg < x) \<and> vector_at matched x = Inr False))) \<and>
         (PatternMatch T g = Inr matches \<longrightarrow> (\<forall>m\<in>set matches. sorted_wrt (<) m))"
proof (intro conjI impI ballI)
  fix s
  assume "explored T g matched sg = Inr log" "s \<in> set log"
  then obtain ext where ext: "s = sg @ ext" "grown T g matched sg ext"
    using explored_grown by blast
  then show "\<exists>ext. s = sg @ ext \<and> sorted_wrt (<) ext \<and>
               (\<forall>x\<in>set ext. (sg \<noteq> [] \<longrightarrow> last sg < x) \<and> vector_at matched x = Inr False)"
    using grown_sorted_ext [OF assms ext(2)] grown_unmatched [OF ext(2)] by blast
next
  fix m
  assume "PatternMatch T g = Inr matches" "m \<in> set matches"
  from PatternMatch_registry_ok [OF this(1)] obtain idx matched
    where "registry_ok T g idx matched matches" by blast
  then have "match_ok T g m" using \<open>m \<in> set matches\<close> by (simp add: registry_ok_def)
  then show "sorted_wrt (<) m" using assms by (simp add: match_ok_def)
qed

theorem sorted_strategy_increasing_witness:
  "pattern_match_type (accept_all at_least_two SORTED_WRT_EXECUTION_ORDER)
     = SORTED_WRT_EXECUTION_ORDER \<and>
   explored (accept_all at_least_two SORTED_WRT_EXECUTION_ORDER) chain_graph
     [False, False, False] [0] = Inr [[0], [0, 1], [0, 1, 2], [0, 2]] \<and>
   (\<exists>ext. [0, 1, 2 :: int] = [0] @ ext \<and> sorted_wrt (<) ext) \<and>
   PatternMatch (accept_all at_least_two SORTED_WRT_EXECUTION_ORDER) chain_graph
     = Inr [[0, 1, 2]] \<and>
   sorted_wrt (<) [0, 1, 2 :: int]"
proof -
  let ?T = "accept_all at_least_two SORTED_WRT_EXECUTION_ORDER"
  have t: "pattern_match_type ?T = SORTED_WRT_EXECUTION_ORDER" by (simp add: accept_all_def)
  note c = sorted_strategy_increasing [OF t, where g = chain_graph
      and matched = "[False, False, False]" and sg = "[0]"
      and log = "[[0], [0, 1], [0, 1, 2], [0, 2]]" and matches = "[[0, 1, 2]]"]
  have "[0, 1, 2] \<in> set [[0], [0, 1], [0, 1, 2], [0, 2 :: int]]" by simp
  with c explored_two_sorted
  have 1: "\<exists>ext. [0, 1, 2 :: int] = [0] @ ext \<and> sorted_wrt (<) ext" by blast
  have "[0, 1, 2] \<in> set [[0, 1, 2 :: int]]" by simp
  with c PatternMatch_two_sorted have 2: "sorted_wrt (<) [0, 1, 2 :: int]" by blast
  show ?thesis using t explored_two_sorted PatternMatch_two_sorted 1 2 by blast
qed

text \<open>
  Claim C8. Under the strategy \<open>CONNECTED_SUBGRAPH\<close>, every working subgraph that the
  expansion of a subgraph \<open>sg\<close> visits is \<open>sg\<close> followed by indices each of which is a
  child or a parent of a node before it in the subgraph. In every match returned by
  \<open>PatternMatch\<close> each element after the first is a child or a parent of an earlier
  element, and so every node of the match is reached from its first node along
  child/parent links that stay inside the match.
\<close>

theorem connected_strategy_linked:
  assumes "pattern_match_type T = CONNECTED_SUBGRAPH"
  shows "(explored T g matched sg = Inr log \<longrightarrow>
            (\<forall>s\<in>set log. \<exists>ext. s = sg @ ext \<and>
               (\<forall>k<length ext. \<exists>i<length sg + k. adjacent g (s ! i) (ext ! k)))) \<and>
         (PatternMatch T g = Inr matches \<longrightarrow>
            (\<forall>m\<in>set matches.
               (\<forall>k<length m. 0 < k \<longrightarrow> (\<exists>i<k. adjacent g (m ! i) (m ! k))) \<and>
               (\<forall>x\<in>set m. (hd m, x) \<in> {(a, b). a \<in> set m \<and> b \<in> set m \<and> adjacent g a b}\<^sup>*)))"
proof (intro conjI impI)
  assume e: "explored T g matched sg = Inr log"
  show "\<forall>s\<in>set log. \<exists>ext. s = sg @ ext \<and>
               (\<forall>k<length ext. \<exists>i<length sg + k. adjacent g (s ! i) (ext ! k))"
  proof
    fix s assume "s \<in> set log"
    with e obtain ext where ext: "s = sg @ ext" "grown T g matched sg ext"
      using explored_grown by blast
    then show "\<exists>ext. s = sg @ ext \<and>
               (\<forall>k<length ext. \<exists>i<length sg + k. adjacent g (s ! i) (ext ! k))"
      using grown_linked [OF assms ext(2)] unfolding adjacent_def by blast
  qed
next
  assume "PatternMatch T g = Inr matches"
  from PatternMatch_registry_ok [OF this] obtain idx matched
    where "registry_ok T g idx matched matches" by blast
  then have ok: "\<forall>m\<in>set matches. match_ok T g m" by (simp add: registry_ok_def)
  show "\<forall>m\<in>set matches.
               (\<forall>k<length m. 0 < k \<longrightarrow> (\<exists>i<k. adjacent g (m ! i) (m ! k))) \<and>
               (\<forall>x\<in>set m. (hd m, x) \<in> {(a, b). a \<in> set m \<and> b \<in> set m \<and> adjacent g a b}\<^sup>*)"
  proof
    fix m assume "m \<in> set matches"
    with ok have m: "match_ok T g m" by blast
    then have ne: "m \<noteq> []"
      and link: "\<forall>k<length m. 0 < k \<longrightarrow> (\<exists>i<k. adjacent g (m ! i) (m ! k))"
      using assms by (simp_all add: match_ok_def adjacent_def)
    have "(hd m, x) \<in> {(a, b). a \<in> set m \<and> b \<in> set m \<and> adjacent g a b}\<^sup>*" if "x \<in> set m" for x
    proof -
      from that obtain k where "k < length m" "x = m ! k" by (auto simp: in_set_conv_nth)
      then show ?thesis using linked_reachable [OF link, of k] ne by (simp add: hd_conv_nth)
    qed
    then show "(\<forall>k<length m. 0 < k \<longrightarrow> (\<exists>i<k. adjacent g (m ! i) (m ! k))) \<and>
               (\<forall>x\<in>set m. (hd m, x) \<in> {(a, b). a \<in> set m \<and> b \<in> set m \<and> adjacent g a b}\<^sup>*)"
      using link by blast
  qed
qed

theorem connected_strategy_linked_witness:
  "pattern_match_type (accept_all at_least_two CONNECTED_SUBGRAPH) = CONNECTED_SUBGRAPH \<and>
   explored (accept_all at_least_two CONNECTED_SUBGRAPH) chain_graph
     [False, False, False] [0] = Inr [[0], [0, 1], [0, 1, 2]] \<and>
   (\<exists>ext. [0, 1, 2 :: int] = [0] @ ext \<and>
      (\<forall>k<length ext. \<exists>i<length [0 :: int] + k. adjacent chain_graph ([0, 1, 2] ! i) (ext ! k))) \<and>
   PatternMatch (accept_all at_least_two CONNECTED_SUBGRAPH) chain_graph = Inr [[0, 1, 2]] \<and>
   (\<exists>i<2. adjacent chain_graph ([0, 1, 2] ! i) ([0, 1, 2] ! 2)) \<and>
   (hd [0, 1, 2], 2) \<in> {(a, b). a \<in> set [0, 1, 2] \<and> b \<in> set [0, 1, 2] \<and>
                            adjacent chain_graph a b}\<^sup>*"
proof -
  let ?T = "accept_all at_least_two CONNECTED_SUBGRAPH"
  let ?E = "{(a, b). a \<in> set [0, 1, 2] \<and> b \<in> set [0, 1, 2] \<and> adjacent chain_graph a b}"
  have t: "pattern_match_type ?T = CONNECTED_SUBGRAPH" by (simp add: accept_all_def)
  note c = connected_strategy_linked [OF t, where g = chain_graph
      and matched = "[False, False, False]" and sg = "[0]"
      and log = "[[0], [0, 1], [0, 1, 2]]" and matches = "[[0, 1, 2]]"]
  have "[0, 1, 2] \<in> set [[0], [0, 1], [0, 1, 2 :: int]]" by simp
  with c explored_two_connected
  have 0: "\<exists>ext. [0, 1, 2 :: int] = [0] @ ext \<and>
      (\<forall>k<length ext. \<exists>i<length [0 :: int] + k. adjacent chain_graph ([0, 1, 2] ! i) (ext ! k))"
    by blast
  from c PatternMatch_two_connected
  have "\<forall>m\<in>set [[0, 1, 2 :: int]].
          (\<forall>k<length m. 0 < k \<longrightarrow> (\<exists>i<k. adjacent chain_graph (m ! i) (m ! k))) \<and>
          (\<forall>x\<in>set m. (hd m, x) \<in> {(a, b). a \<in> set m \<and> b \<in> set m \<and> adjacent chain_graph a b}\<^sup>*)"
    by blast
  then have "(\<forall>k<length [0, 1, 2 :: int]. 0 < k \<longrightarrow>
                (\<exists>i<k. adjacent chain_graph ([0, 1, 2] ! i) ([0, 1, 2] ! k))) \<and>
             (\<forall>x\<in>set [0, 1, 2 :: int]. (hd [0, 1, 2], x) \<in> ?E\<^sup>*)"
    by (rule bspec) simp
  then have l: "\<forall>k<length [0, 1, 2 :: int]. 0 < k \<longrightarrow>
                (\<exists>i<k. adjacent chain_graph ([0, 1, 2] ! i) ([0, 1, 2] ! k))"
    and r: "\<forall>x\<in>set [0, 1, 2 :: int]. (hd [0, 1, 2], x) \<in> ?E\<^sup>*"
    by blast+
  have "(2::nat) < length [0, 1, 2 :: int]" "(0::nat) < 2" by simp_all
  with l have 1: "\<exists>i<2. adjacent chain_graph ([0, 1, 2] ! i) ([0, 1, 2] ! 2)" by blast
  have "(2::int) \<in> set [0, 1, 2]" by simp
  with r have 2: "(hd [0, 1, 2], 2) \<in> ?E\<^sup>*" by (rule bspec)
  show ?thesis using t explored_two_connected PatternMatch_two_connected 0 1 2 by blast
qed

text \<open>
  Claim C10. The round of \<open>PatternMatch\<close> for start index \<open>idx\<close> leaves the best-subgraph
  buffer empty, or holding a subgraph whose first element is \<open>idx\<close>, and then \<open>idx\<close> was
  unmatched and accepted against the empty subgraph. Hence every match returned by
  \<open>PatternMatch\<close> is non-empty, its first element is a node index accepted against the
  empty subgraph, and the first elements of the matches increase strictly along the
  list.
\<close>

theorem PatternMatch_start_indices:
  "(try_candidate (PatternMatchHelper T g matched) T g matched idx [] [] = Inr (sg, best) \<longrightarrow>
      best = [] \<or>
      (hd best = idx \<and> vector_at matched idx = Inr False \<and> PatternRule T g [] idx)) \<and>
   (PatternMatch T g = Inr matches \<longrightarrow>
      (\<forall>m\<in>set matches. m \<noteq> [] \<and> 0 \<le> hd m \<and> hd m < graph_size g \<and>
                        PatternRule T g [] (hd m)) \<and>
      sorted_wrt (<) (map hd matches))"
proof (intro conjI impI)
  assume "try_candidate (PatternMatchHelper T g matched) T g matched idx [] [] = Inr (sg, best)"
  from start_round [OF this]
  show "best = [] \<or> (hd best = idx \<and> vector_at matched idx = Inr False \<and> PatternRule T g [] idx)"
    by auto
next
  assume "PatternMatch T g = Inr matches"
  from PatternMatch_registry_ok [OF this] obtain idx matched
    where r: "registry_ok T g idx matched matches" by blast
  then have ok: "\<forall>m\<in>set matches. match_ok T g m" by (simp add: registry_ok_def)
  show "\<forall>m\<in>set matches. m \<noteq> [] \<and> 0 \<le> hd m \<and> hd m < graph_size g \<and> PatternRule T g [] (hd m)"
  proof
    fix m assume "m \<in> set matches"
    with ok have m: "match_ok T g m" by blast
    then have ne: "m \<noteq> []" and range: "\<forall>x\<in>set m. 0 \<le> x \<and> x < graph_size g"
      and acc: "\<forall>k<length m. PatternRule T g (take k m) (m ! k)"
      by (simp_all add: match_ok_def)
    from ne have "hd m \<in> set m" by simp
    with range have "0 \<le> hd m \<and> hd m < graph_size g" by blast
    moreover from ne acc have "PatternRule T g (take 0 m) (m ! 0)" by blast
    then have "PatternRule T g [] (hd m)" using ne by (simp add: hd_conv_nth)
    ultimately show "m \<noteq> [] \<and> 0 \<le> hd m \<and> hd m < graph_size g \<and> PatternRule T g [] (hd m)"
      using ne by blast
  qed
next
  assume "PatternMatch T g = Inr matches"
  from PatternMatch_registry_ok [OF this] obtain idx matched
    where "registry_ok T g idx matched matches" by blast
  then show "sorted_wrt (<) (map hd matches)" by (simp add: registry_ok_def)
qed

theorem PatternMatch_start_indices_witness:
  "try_candidate (PatternMatchHelper (accept_all single CONNECTED_SUBGRAPH) chain_graph
      [False, False, False]) (accept_all single CONNECTED_SUBGRAPH) chain_graph
      [False, False, False] 0 [] [] = Inr ([], [0]) \<and>
   hd [0 :: int] = 0 \<and>
   PatternMatch (accept_all single CONNECTED_SUBGRAPH) chain_graph = Inr [[0], [1], [2]] \<and>
   sorted_wrt (<) (map hd [[0], [1], [2 :: int]])"
  using start_round_single PatternMatch_single_connected
    PatternMatch_start_indices [of "accept_all single CONNECTED_SUBGRAPH" chain_graph
      "[False, False, False]" 0 "[]" "[0]" "[[0], [1], [2]]"]
  by simp

end
